theory Spec2Isabelle
  imports Complex_Main "HOL-Library.Log_Nat"
begin

section \<open>JavaScript numbers\<close>

text \<open>
  A JavaScript number is an IEEE 754 binary64 value: a finite value (a rational that the
  format represents), an infinity or NaN. The two zeros are identified: the model has no
  negative zero, so \<open>1 / -0\<close> and the rendering \<open>-0\<close> of a negative zero are outside
  it. Every arithmetic operation computes the exact rational result and rounds it to
  binary64 with \<open>fl\<close> (round to nearest, ties to even, gradual underflow, overflow to an
  infinity).
\<close>

datatype jsnum = Fin rat | PosInf | NegInf | NaN

definition round_even :: "rat \<Rightarrow> int" where
  "round_even x = (let f = \<lfloor>x\<rfloor>; r = x - of_int f in
     if r < 1/2 then f else if 1/2 < r then f + 1 else if even f then f else f + 1)"

text \<open>\<open>ilog2 x\<close> is \<open>\<lfloor>log\<^sub>2 x\<rfloor>\<close> for a positive rational, computed from bit lengths.\<close>

definition ilog2 :: "rat \<Rightarrow> int" where
  "ilog2 x = (let (p, q) = quotient_of x; k = bitlen p - bitlen q
              in if 2 powi k \<le> x then k else k - 1)"

text \<open>The exponent of the unit in the last place: 53 significant bits, least exponent -1074.\<close>

definition fl_exp :: "rat \<Rightarrow> int" where
  "fl_exp x = max (ilog2 \<bar>x\<bar> - 52) (- 1074)"

definition fl :: "rat \<Rightarrow> jsnum" where
  "fl x = (if x = 0 then Fin 0 else
     let y = of_int (round_even (x / 2 powi fl_exp x)) * 2 powi fl_exp x
     in if 2 ^ 1024 \<le> \<bar>y\<bar> then (if 0 < x then PosInf else NegInf) else Fin y)"

text \<open>\<open>ilog10 x\<close> is \<open>\<lfloor>log\<^sub>1\<^sub>0 x\<rfloor>\<close> for a positive rational, computed from digit counts.\<close>

definition ilog10 :: "rat \<Rightarrow> int" where
  "ilog10 x = (let (p, q) = quotient_of x;
                   k = int (floorlog 10 (nat p)) - int (floorlog 10 (nat q))
               in if 10 powi k \<le> x then k else k - 1)"

text \<open>
  The digits the engine prints a number from, in \<open>Number::toString\<close> and in the number
  formatter alike: those of the decimal with the fewest significant digits that reads back
  as the number, and of the nearest to the number if several have as few. For a positive
  \<open>y\<close> the decimals of \<open>n\<close> significant digits around \<open>y\<close> are the largest multiple of
  \<open>10\<^sup>e\<close> not above \<open>y\<close> and the next one, with \<open>e = ilog10 y - n + 1\<close>; the search tries
  1 to 16 digits and takes the nearest decimal of 17 digits when none of those reads back
  as \<open>y\<close>.
\<close>

definition decimal_below :: "rat \<Rightarrow> int \<Rightarrow> rat" where
  "decimal_below y e = of_int \<lfloor>y / 10 powi e\<rfloor> * 10 powi e"

fun shortest_search :: "rat \<Rightarrow> nat \<Rightarrow> nat \<Rightarrow> rat" where
  "shortest_search y n 0 =
     (let e = ilog10 y - int n + 1; lo = decimal_below y e; hi = lo + 10 powi e
      in if y - lo \<le> hi - y then lo else hi)"
| "shortest_search y n (Suc r) =
     (let e = ilog10 y - int n + 1; lo = decimal_below y e; hi = lo + 10 powi e
      in if fl lo = Fin y \<and> (fl hi \<noteq> Fin y \<or> y - lo \<le> hi - y) then lo
         else if fl hi = Fin y then hi
         else shortest_search y (Suc n) r)"

definition shortest :: "rat \<Rightarrow> rat" where
  "shortest y = (if y = 0 then 0 else sgn y * shortest_search \<bar>y\<bar> 1 16)"

fun js_add :: "jsnum \<Rightarrow> jsnum \<Rightarrow> jsnum" where
  "js_add (Fin x) (Fin y) = fl (x + y)"
| "js_add NaN _ = NaN"
| "js_add _ NaN = NaN"
| "js_add PosInf NegInf = NaN"
| "js_add NegInf PosInf = NaN"
| "js_add PosInf _ = PosInf"
| "js_add NegInf _ = NegInf"
| "js_add (Fin x) PosInf = PosInf"
| "js_add (Fin x) NegInf = NegInf"

fun js_sub :: "jsnum \<Rightarrow> jsnum \<Rightarrow> jsnum" where
  "js_sub (Fin x) (Fin y) = fl (x - y)"
| "js_sub NaN _ = NaN"
| "js_sub _ NaN = NaN"
| "js_sub PosInf PosInf = NaN"
| "js_sub NegInf NegInf = NaN"
| "js_sub PosInf _ = PosInf"
| "js_sub NegInf _ = NegInf"
| "js_sub (Fin x) PosInf = NegInf"
| "js_sub (Fin x) NegInf = PosInf"

fun js_mul :: "jsnum \<Rightarrow> jsnum \<Rightarrow> jsnum" where
  "js_mul (Fin x) (Fin y) = fl (x * y)"
| "js_mul NaN _ = NaN"
| "js_mul _ NaN = NaN"
| "js_mul (Fin x) PosInf = (if x = 0 then NaN else if 0 < x then PosInf else NegInf)"
| "js_mul (Fin x) NegInf = (if x = 0 then NaN else if 0 < x then NegInf else PosInf)"
| "js_mul PosInf (Fin y) = (if y = 0 then NaN else if 0 < y then PosInf else NegInf)"
| "js_mul NegInf (Fin y) = (if y = 0 then NaN else if 0 < y then NegInf else PosInf)"
| "js_mul PosInf PosInf = PosInf"
| "js_mul NegInf NegInf = PosInf"
| "js_mul PosInf NegInf = NegInf"
| "js_mul NegInf PosInf = NegInf"

text \<open>Division: a zero divisor is the positive zero, the only zero of the model.\<close>

fun js_div :: "jsnum \<Rightarrow> jsnum \<Rightarrow> jsnum" where
  "js_div (Fin x) (Fin y) =
     (if y = 0 then (if x = 0 then NaN else if 0 < x then PosInf else NegInf)
      else fl (x / y))"
| "js_div NaN _ = NaN"
| "js_div _ NaN = NaN"
| "js_div (Fin x) _ = Fin 0"
| "js_div PosInf (Fin y) = (if 0 \<le> y then PosInf else NegInf)"
| "js_div NegInf (Fin y) = (if 0 \<le> y then NegInf else PosInf)"
| "js_div _ _ = NaN"

text \<open>The remainder \<open>%\<close> takes the sign of the dividend and is exact.\<close>

definition trunc_rat :: "rat \<Rightarrow> int" where
  "trunc_rat q = (if 0 \<le> q then \<lfloor>q\<rfloor> else \<lceil>q\<rceil>)"

fun js_rem :: "jsnum \<Rightarrow> jsnum \<Rightarrow> jsnum" where
  "js_rem (Fin x) (Fin y) = (if y = 0 then NaN else Fin (x - y * of_int (trunc_rat (x / y))))"
| "js_rem NaN _ = NaN"
| "js_rem _ NaN = NaN"
| "js_rem (Fin x) _ = Fin x"
| "js_rem _ _ = NaN"

text \<open>\<open>Math.floor\<close>, \<open>Math.round\<close> (ties towards positive infinity) and \<open>Math.abs\<close>.\<close>

fun js_floor :: "jsnum \<Rightarrow> jsnum" where
  "js_floor (Fin x) = Fin (of_int \<lfloor>x\<rfloor>)"
| "js_floor n = n"

fun js_round :: "jsnum \<Rightarrow> jsnum" where
  "js_round (Fin x) = Fin (of_int \<lfloor>x + 1/2\<rfloor>)"
| "js_round n = n"

fun js_abs :: "jsnum \<Rightarrow> jsnum" where
  "js_abs (Fin x) = Fin \<bar>x\<bar>"
| "js_abs NaN = NaN"
| "js_abs _ = PosInf"

fun js_lt :: "jsnum \<Rightarrow> jsnum \<Rightarrow> bool" where
  "js_lt (Fin x) (Fin y) = (x < y)"
| "js_lt NaN _ = False"
| "js_lt _ NaN = False"
| "js_lt NegInf NegInf = False"
| "js_lt NegInf _ = True"
| "js_lt _ NegInf = False"
| "js_lt PosInf _ = False"
| "js_lt _ PosInf = True"

definition js_gt :: "jsnum \<Rightarrow> jsnum \<Rightarrow> bool" where
  "js_gt a b = js_lt b a"

definition js_le :: "jsnum \<Rightarrow> jsnum \<Rightarrow> bool" where
  "js_le a b = (a \<noteq> NaN \<and> b \<noteq> NaN \<and> \<not> js_lt b a)"

text \<open>Strict equality \<open>===\<close> of two numbers.\<close>

definition js_eq :: "jsnum \<Rightarrow> jsnum \<Rightarrow> bool" where
  "js_eq a b = (a \<noteq> NaN \<and> a = b)"

definition Math_PI :: jsnum where
  "Math_PI = Fin (884279719003555 / 2 ^ 48)"

section \<open>JavaScript values and strings\<close>

datatype jsval = Undefined | Null | Bool bool | Num jsnum | Str string

definition truthy_num :: "jsnum \<Rightarrow> bool" where
  "truthy_num n = (case n of Fin q \<Rightarrow> q \<noteq> 0 | NaN \<Rightarrow> False | _ \<Rightarrow> True)"


text \<open>\<open>Number.isInteger\<close>: a number, finite and integral.\<close>

fun isInteger :: "jsval \<Rightarrow> bool" where
  "isInteger (Num (Fin q)) = (of_int \<lfloor>q\<rfloor> = q)"
| "isInteger _ = False"

definition is_digit :: "char \<Rightarrow> bool" where
  "is_digit c = (c \<in> set ''0123456789'')"

definition digit_val :: "char \<Rightarrow> nat" where
  "digit_val c = of_char c - 48"

definition digit_char :: "nat \<Rightarrow> char" where
  "digit_char d = ''0123456789'' ! (d mod 10)"

definition nat_of_digits :: "string \<Rightarrow> nat" where
  "nat_of_digits ds = foldl (\<lambda>a c. 10 * a + digit_val c) 0 ds"

subsection \<open>\<open>Number(string)\<close>\<close>

text \<open>
  The string grammar of \<open>Number\<close>: white space is trimmed, the empty string is 0, then an
  unsigned literal in radix 16, 8 or 2, or an optionally signed \<open>Infinity\<close> or decimal
  literal with an optional fraction and exponent; everything else is NaN. Strings are
  ASCII: the white space of the model is tab, line feed, vertical tab, form feed, carriage
  return and space.
\<close>

definition is_ws :: "char \<Rightarrow> bool" where
  "is_ws c = (c \<in> set [CHR 0x09, CHR 0x0A, CHR 0x0B, CHR 0x0C, CHR 0x0D, CHR '' ''])"

definition trim :: "string \<Rightarrow> string" where
  "trim s = rev (dropWhile is_ws (rev (dropWhile is_ws s)))"

definition radix_val :: "char \<Rightarrow> nat" where
  "radix_val c =
     (if is_digit c then of_char c - 48
      else if c \<in> set ''abcdef'' then of_char c - 87
      else if c \<in> set ''ABCDEF'' then of_char c - 55
      else 16)"

definition radix_of :: "char \<Rightarrow> nat option" where
  "radix_of c =
     (if c \<in> set ''xX'' then Some 16
      else if c \<in> set ''oO'' then Some 8
      else if c \<in> set ''bB'' then Some 2
      else None)"

text \<open>\<open>Some\<close> for a string that starts as a radix literal, \<open>None\<close> for any other.\<close>

definition parse_radix :: "string \<Rightarrow> jsnum option" where
  "parse_radix t =
     (case t of
        z # p # ds \<Rightarrow>
          (if z = CHR ''0'' then
             (case radix_of p of
                None \<Rightarrow> None
              | Some b \<Rightarrow>
                  Some (if ds \<noteq> [] \<and> list_all (\<lambda>c. radix_val c < b) ds
                        then fl (of_nat (foldl (\<lambda>a c. b * a + radix_val c) 0 ds))
                        else NaN))
           else None)
      | _ \<Rightarrow> None)"

definition parse_exponent :: "string \<Rightarrow> int option" where
  "parse_exponent r =
     (case r of
        [] \<Rightarrow> Some 0
      | c # r1 \<Rightarrow>
          if c \<in> set ''eE'' then
            (let (neg, ds) =
               (case r1 of
                  [] \<Rightarrow> (False, [])
                | s # r2 \<Rightarrow>
                    if s = CHR ''-'' then (True, r2)
                    else if s = CHR ''+'' then (False, r2)
                    else (False, r1))
             in if ds \<noteq> [] \<and> list_all is_digit ds
                then Some (if neg then - int (nat_of_digits ds) else int (nat_of_digits ds))
                else None)
          else None)"

definition parse_decimal :: "string \<Rightarrow> rat option" where
  "parse_decimal u =
     (let ip = takeWhile is_digit u;
          r1 = dropWhile is_digit u;
          (fp, r2) =
            (case r1 of
               [] \<Rightarrow> ([], [])
             | c # r \<Rightarrow>
                 if c = CHR ''.'' then (takeWhile is_digit r, dropWhile is_digit r)
                 else ([], r1))
      in if ip = [] \<and> fp = [] then None
         else (case parse_exponent r2 of
                 None \<Rightarrow> None
               | Some e \<Rightarrow>
                   Some (of_nat (nat_of_digits (ip @ fp)) / 10 ^ length fp * 10 powi e)))"

definition str_to_number :: "string \<Rightarrow> jsnum" where
  "str_to_number s =
     (let t = trim s in
      if t = [] then Fin 0
      else (case parse_radix t of
              Some v \<Rightarrow> v
            | None \<Rightarrow>
                (let (neg, u) =
                   (case t of
                      [] \<Rightarrow> (False, t)
                    | c # r \<Rightarrow>
                        if c = CHR ''-'' then (True, r)
                        else if c = CHR ''+'' then (False, r)
                        else (False, t))
                 in if u = ''Infinity'' then (if neg then NegInf else PosInf)
                    else (case parse_decimal u of
                            None \<Rightarrow> NaN
                          | Some q \<Rightarrow> fl (if neg then - q else q)))))"

text \<open>\<open>Number(val)\<close> for a primitive value.\<close>

fun to_number :: "jsval \<Rightarrow> jsnum" where
  "to_number Undefined = NaN"
| "to_number Null = Fin 0"
| "to_number (Bool b) = Fin (if b then 1 else 0)"
| "to_number (Num n) = n"
| "to_number (Str s) = str_to_number s"

subsection \<open>Numbers to strings\<close>

fun show_nat :: "nat \<Rightarrow> string" where
  "show_nat n = (if n < 10 then [digit_char n] else show_nat (n div 10) @ [digit_char (n mod 10)])"

declare show_nat.simps [simp del]

definition show_int :: "int \<Rightarrow> string" where
  "show_int k = (if k < 0 then CHR ''-'' # show_nat (nat (- k)) else show_nat (nat k))"

text \<open>
  \<open>Number::toString\<close>, as a template literal applies it. An integer below \<open>2\<^sup>5\<^sup>3\<close> in
  magnitude prints as its decimal numeral, which is its shortest decimal; the rendering of
  every other finite number (a fraction, an exponent, the digits of a larger integer) is
  the platform's, a parameter \<open>other\<close> of the model.
\<close>

fun number_to_string :: "(rat \<Rightarrow> string) \<Rightarrow> jsnum \<Rightarrow> string" where
  "number_to_string other (Fin q) =
     (if of_int \<lfloor>q\<rfloor> = q \<and> \<bar>q\<bar> < 2 ^ 53 then show_int \<lfloor>q\<rfloor> else other q)"
| "number_to_string other NaN = ''NaN''"
| "number_to_string other PosInf = ''Infinity''"
| "number_to_string other NegInf = ''-Infinity''"

text \<open>The \<open>k\<close> low decimal digits of \<open>n\<close>, zero padded.\<close>

fun digits_fixed :: "nat \<Rightarrow> nat \<Rightarrow> string" where
  "digits_fixed 0 n = []"
| "digits_fixed (Suc k) n = digits_fixed k (n div 10) @ [digit_char (n mod 10)]"

text \<open>Trailing zeros are dropped while more than \<open>mn\<close> digits remain.\<close>

definition strip_zeros :: "nat \<Rightarrow> string \<Rightarrow> string" where
  "strip_zeros mn ds =
     (let z = length (takeWhile (\<lambda>c. c = CHR ''0'') (rev ds))
      in take (length ds - min z (length ds - mn)) ds)"

text \<open>
  \<open>new Intl.NumberFormat('en-US', {useGrouping: false, minimumFractionDigits: mn,
  maximumFractionDigits: mx}).format\<close>. The formatter does not round the binary value of
  the number: it takes the shortest decimal of the number and rounds that decimal to \<open>mx\<close>
  fraction digits, ties away from zero (\<open>format_decimal\<close>), so that \<open>1.005\<close> prints as
  \<open>1.01\<close> with two fraction digits. The infinity sign is U+221E in UTF-8.
\<close>

definition infinity_sign :: string where
  "infinity_sign = [CHR 0xE2, CHR 0x88, CHR 0x9E]"

definition format_decimal :: "nat \<Rightarrow> nat \<Rightarrow> rat \<Rightarrow> string" where
  "format_decimal mn mx q =
     (let n = nat \<lfloor>\<bar>q\<bar> * 10 ^ mx + 1/2\<rfloor>;
          ip = show_nat (n div 10 ^ mx);
          fp = strip_zeros mn (digits_fixed mx (n mod 10 ^ mx))
      in (if q < 0 then ''-'' else []) @ ip @ (if fp = [] then [] else CHR ''.'' # fp))"

fun format_en_US :: "nat \<Rightarrow> nat \<Rightarrow> jsnum \<Rightarrow> string" where
  "format_en_US mn mx (Fin y) = format_decimal mn mx (shortest y)"
| "format_en_US mn mx NaN = ''NaN''"
| "format_en_US mn mx PosInf = infinity_sign"
| "format_en_US mn mx NegInf = CHR ''-'' # infinity_sign"

declare format_en_US.simps [simp del]

subsection \<open>The two regular expressions\<close>

text \<open>\<open>/^[0-9]*[.]?[0-9]*$/.test(s)\<close>\<close>

definition matches_decimal :: "string \<Rightarrow> bool" where
  "matches_decimal s =
     (let r1 = dropWhile is_digit s;
          r2 = (case r1 of [] \<Rightarrow> [] | c # r \<Rightarrow> if c = CHR ''.'' then r else r1)
      in dropWhile is_digit r2 = [])"

text \<open>\<open>/0[,.]0{2}/.test(s)\<close>: the pattern at the head of the string, then anywhere in it.\<close>

fun zero_fraction_here :: "string \<Rightarrow> bool" where
  "zero_fraction_here (a # b # c # d # _) =
     (a = CHR ''0'' \<and> (b = CHR '','' \<or> b = CHR ''.'') \<and> c = CHR ''0'' \<and> d = CHR ''0'')"
| "zero_fraction_here _ = False"

fun test_zero_fraction :: "string \<Rightarrow> bool" where
  "test_zero_fraction [] = False"
| "test_zero_fraction (c # cs) = (zero_fraction_here (c # cs) \<or> test_zero_fraction cs)"

section \<open>Unit conversion and formatting (src/helper.js)\<close>

text \<open>\<open>new Error('Invalid input!')\<close>, and the engine's own TypeError and RangeError.\<close>

datatype error = InvalidInput | TypeError | RangeError

record settings =
  displayFiat :: jsval
  unit :: string
  fiat :: string
  exchangeRate :: "string \<rightharpoonup> jsnum"

text \<open>
  The table \<open>UNITS\<close> of \<open>./config\<close> is not among the source files: it is a parameter, a
  map from a unit key to its denominator.
\<close>

type_synonym units_table = "string \<rightharpoonup> rat"

text \<open>
  \<open>formatNumber\<close> and \<open>formatFiat\<close> format with the locale of the runtime: the formatter
  \<open>new Intl.NumberFormat(undefined, options)\<close> is a parameter, for \<open>formatFiat\<close> as a
  function of the currency code. The constructor accepts the options of \<open>formatNumber\<close>.
  With \<open>{style: 'currency', currency}\<close> it throws a TypeError when \<open>currency\<close> is
  undefined and a RangeError when the string of \<open>currency\<close> is not a well-formed currency
  code, three ASCII letters.
\<close>

definition is_letter :: "char \<Rightarrow> bool" where
  "is_letter c =
     (c \<in> set ''abcdefghijklmnopqrstuvwxyz'' \<or> c \<in> set ''ABCDEFGHIJKLMNOPQRSTUVWXYZ'')"

definition well_formed_currency_code :: "string \<Rightarrow> bool" where
  "well_formed_currency_code code = (length code = 3 \<and> list_all is_letter code)"

text \<open>\<open>String(val)\<close> for a primitive value.\<close>

fun to_string :: "(rat \<Rightarrow> string) \<Rightarrow> jsval \<Rightarrow> string" where
  "to_string other Undefined = ''undefined''"
| "to_string other Null = ''null''"
| "to_string other (Bool b) = (if b then ''true'' else ''false'')"
| "to_string other (Num n) = number_to_string other n"
| "to_string other (Str s) = s"

definition currency_formatter ::
  "(string \<Rightarrow> jsnum \<Rightarrow> string) \<Rightarrow> (rat \<Rightarrow> string) \<Rightarrow> jsval \<Rightarrow> error + (jsnum \<Rightarrow> string)" where
  "currency_formatter numberFormat other currency =
     (if currency = Undefined then Inl TypeError
      else if \<not> well_formed_currency_code (to_string other currency) then Inl RangeError
      else Inr (numberFormat (to_string other currency)))"

definition formatNumber :: "(jsnum \<Rightarrow> string) \<Rightarrow> jsval \<Rightarrow> string" where
  "formatNumber intl val =
     (let num = to_number val;
          num = (if num = NaN then Fin 0 else num)
      in intl num)"

definition formatFiat ::
  "(string \<Rightarrow> jsnum \<Rightarrow> string) \<Rightarrow> (rat \<Rightarrow> string) \<Rightarrow> jsval \<Rightarrow> jsval \<Rightarrow> error + string" where
  "formatFiat numberFormat other val currency =
     (let num = to_number val;
          num = (if num = NaN then Fin 0 else num)
      in case currency_formatter numberFormat other currency of
           Inl e \<Rightarrow> Inl e
         | Inr intl \<Rightarrow>
             (let str = intl num
              in if js_lt num (Fin 1) \<and> js_gt num (Fin 0) \<and> test_zero_fraction str
                 then Inr (''< '' @ intl (fl (1/100)))
                 else if js_lt (js_abs num) (Fin 1) \<and> js_gt (js_abs num) (Fin 0) \<and>
                         test_zero_fraction str
                 then Inr (''< '' @ intl (fl (- (1/100))))
                 else Inr str))"

text \<open>\<open>settings.exchangeRate[settings.fiat] || 0\<close>\<close>

definition rate_or_zero :: "settings \<Rightarrow> jsnum" where
  "rate_or_zero st =
     (case exchangeRate st (fiat st) of
        None \<Rightarrow> Fin 0
      | Some r \<Rightarrow> if truthy_num r then r else Fin 0)"

definition toSatoshis :: "units_table \<Rightarrow> jsval \<Rightarrow> settings option \<Rightarrow> error + jsnum" where
  "toSatoshis UNITS amount settings =
     (case amount of
        Str a \<Rightarrow>
          (if \<not> matches_decimal a then Inl InvalidInput
           else (case settings of
                   None \<Rightarrow> Inl InvalidInput
                 | Some st \<Rightarrow>
                     (case displayFiat st of
                        Bool fiat_mode \<Rightarrow>
                          if fiat_mode then
                            (let rate = rate_or_zero st in
                             case UNITS ''btc'' of
                               None \<Rightarrow> Inl TypeError
                             | Some d \<Rightarrow>
                                 Inr (js_round (js_mul (js_mul (str_to_number a) rate) (Fin d))))
                          else
                            (case UNITS (unit st) of
                               None \<Rightarrow> Inl TypeError
                             | Some d \<Rightarrow> Inr (js_round (js_mul (str_to_number a) (Fin d))))
                      | _ \<Rightarrow> Inl InvalidInput)))
      | _ \<Rightarrow> Inl InvalidInput)"

definition calculateExchangeRate :: "units_table \<Rightarrow> jsval \<Rightarrow> settings option \<Rightarrow> error + jsnum" where
  "calculateExchangeRate UNITS satoshis settings =
     (if \<not> isInteger satoshis then Inl InvalidInput
      else (case settings of
              None \<Rightarrow> Inl TypeError
            | Some st \<Rightarrow>
                (case displayFiat st of
                   Bool _ \<Rightarrow>
                     (let rate = rate_or_zero st in
                      case UNITS ''btc'' of
                        None \<Rightarrow> Inl TypeError
                      | Some d \<Rightarrow> Inr (js_div (js_div (to_number satoshis) rate) (Fin d)))
                 | _ \<Rightarrow> Inl InvalidInput)))"

text \<open>
  \<open>toAmount\<close>: the formatter's constructor refuses (RangeError) a \<open>maximumFractionDigits\<close>
  below \<open>minimumFractionDigits\<close> or above 100.
\<close>

definition toAmount :: "units_table \<Rightarrow> jsval \<Rightarrow> settings option \<Rightarrow> nat \<Rightarrow> error + string" where
  "toAmount UNITS satoshis settings fiatPrecision =
     (if \<not> isInteger satoshis then Inl InvalidInput
      else (case settings of
              None \<Rightarrow> Inl InvalidInput
            | Some st \<Rightarrow>
                (case displayFiat st of
                   Bool fiat_mode \<Rightarrow>
                     (case (if fiat_mode then calculateExchangeRate UNITS satoshis settings
                            else (case UNITS (unit st) of
                                    None \<Rightarrow> Inl TypeError
                                  | Some d \<Rightarrow> Inr (js_div (to_number satoshis) (Fin d)))) of
                        Inl e \<Rightarrow> Inl e
                      | Inr num \<Rightarrow>
                          (let mn = (if fiat_mode then 2 else 0);
                               mx = (if fiat_mode then fiatPrecision else 8)
                           in if mx < mn \<or> 100 < mx then Inl RangeError
                              else Inr (format_en_US mn mx num)))
                 | _ \<Rightarrow> Inl InvalidInput)))"

definition getTimeTilAvailable :: "(rat \<Rightarrow> string) \<Rightarrow> jsval \<Rightarrow> error + string" where
  "getTimeTilAvailable other numBlocks =
     (if \<not> isInteger numBlocks then Inl InvalidInput
      else
        (let n = to_number numBlocks;
             days = js_floor (js_div n (Fin (24 * 6)));
             hours = js_floor (js_div (js_rem n (Fin (24 * 6))) (Fin 6));
             daysString = (if js_eq days (Fin 1) then ''day'' else ''days'');
             hoursString = (if js_eq hours (Fin 1) then ''hour'' else ''hours'')
         in Inr (number_to_string other days @ '' '' @ daysString @ '' and '' @
                 number_to_string other hours @ '' '' @ hoursString)))"

section \<open>Polling and retrying (src/helper.js)\<close>








section \<open>The arc of the spinner (src/helper.js)\<close>

text \<open>
  \<open>Math.cos\<close> and \<open>Math.sin\<close> are the engine's approximations: parameters \<open>mcos\<close> and
  \<open>msin\<close>. \<open>generateArc\<close> first computes the two points and the two flags
  (\<open>arc_geometry\<close>), then prints them into the path.
\<close>

record point =
  point_x :: jsnum
  point_y :: jsnum

definition polarToCartesian ::
  "(jsnum \<Rightarrow> jsnum) \<Rightarrow> (jsnum \<Rightarrow> jsnum) \<Rightarrow> jsnum \<Rightarrow> jsnum \<Rightarrow> jsnum \<Rightarrow> jsnum \<Rightarrow> point" where
  "polarToCartesian mcos msin centerX centerY radius angleInDegrees =
     (let angleInRadians = js_div (js_mul (js_sub angleInDegrees (Fin 90)) Math_PI) (Fin 180)
      in \<lparr>point_x = js_add centerX (js_mul radius (mcos angleInRadians)),
          point_y = js_add centerY (js_mul radius (msin angleInRadians))\<rparr>)"

record arc =
  arc_start :: point
  arc_end :: point
  largeArcFlag :: string
  sweepFlag :: string

definition arc_geometry ::
  "(jsnum \<Rightarrow> jsnum) \<Rightarrow> (jsnum \<Rightarrow> jsnum) \<Rightarrow> jsnum \<Rightarrow> jsnum \<Rightarrow> jsnum \<Rightarrow> jsnum \<Rightarrow> jsnum \<Rightarrow> arc" where
  "arc_geometry mcos msin x y radius startAngle endAngle =
     (let start = polarToCartesian mcos msin x y radius endAngle;
          end0 = polarToCartesian mcos msin x y radius startAngle;
          largeArc = (if js_le (js_sub endAngle startAngle) (Fin 180) then ''0'' else ''1'');
          sweep = (if js_eq endAngle (Fin 360) then ''1'' else ''0'');
          end1 = end0\<lparr>point_x :=
                   (if js_eq endAngle (Fin 360) then js_sub (point_x end0) (fl (1/100))
                    else point_x end0)\<rparr>
      in \<lparr>arc_start = start, arc_end = end1, largeArcFlag = largeArc, sweepFlag = sweep\<rparr>)"

definition join_space :: "string list \<Rightarrow> string" where
  "join_space parts = (case parts of [] \<Rightarrow> [] | p # ps \<Rightarrow> foldl (\<lambda>a b. a @ '' '' @ b) p ps)"

definition path_string :: "(rat \<Rightarrow> string) \<Rightarrow> jsnum \<Rightarrow> jsnum \<Rightarrow> jsnum \<Rightarrow> arc \<Rightarrow> string" where
  "path_string other x y radius a =
     (let str = number_to_string other in
      join_space
        [''M '' @ str x @ '' '' @ str y,
         ''L '' @ str (point_x (arc_start a)) @ '' '' @ str (point_y (arc_start a)),
         ''A '' @ str radius @ '' '' @ str radius @ '' 0 '' @ largeArcFlag a @ '' '' @
           sweepFlag a @ '' '' @ str (point_x (arc_end a)) @ '' '' @ str (point_y (arc_end a)),
         ''Z''])"

definition generateArc ::
  "(rat \<Rightarrow> string) \<Rightarrow> (jsnum \<Rightarrow> jsnum) \<Rightarrow> (jsnum \<Rightarrow> jsnum) \<Rightarrow>
     jsnum \<Rightarrow> jsnum \<Rightarrow> jsnum \<Rightarrow> jsnum \<Rightarrow> jsnum \<Rightarrow> string" where
  "generateArc other mcos msin x y radius startAngle endAngle =
     path_string other x y radius (arc_geometry mcos msin x y radius startAngle endAngle)"

section \<open>The spec's wording of the amount\<close>


section \<open>The spec's wording of \<open>getTimeTilAvailable\<close>\<close>

text \<open>
  The rendering \<open><days> day(s) and <hours> hour(s)\<close>, singular at exactly 1, and the
  spec's formula over the integers: \<open>days = floor(numBlocks / 144)\<close> and
  \<open>hours = floor((numBlocks mod 144) / 6)\<close>, with the mathematical \<open>mod\<close>.
\<close>

definition time_string :: "int \<Rightarrow> int \<Rightarrow> string" where
  "time_string days hours =
     show_int days @ '' '' @ (if days = 1 then ''day'' else ''days'') @ '' and '' @
     show_int hours @ '' '' @ (if hours = 1 then ''hour'' else ''hours'')"

definition spec_getTimeTilAvailable :: "int \<Rightarrow> string" where
  "spec_getTimeTilAvailable n = time_string (n div 144) ((n mod 144) div 6)"

text \<open>The remainder of the code's \<open>%\<close> on integers: it takes the sign of the dividend.\<close>

definition rem_trunc :: "int \<Rightarrow> int \<Rightarrow> int" where
  "rem_trunc n m = sgn n * (\<bar>n\<bar> mod \<bar>m\<bar>)"

section \<open>Instances for the concrete runs\<close>





text \<open>
  Modelled from the spec: the units table of \<open>./config\<close>, which is not among the source
  files. The spec requires the entry \<open>btc\<close> with denominator \<open>10\<^sup>8\<close> and names the unit
  \<open>sat\<close>, one satoshi.
\<close>

definition UNITS_spec :: units_table where
  "UNITS_spec = [''btc'' \<mapsto> 10 ^ 8, ''sat'' \<mapsto> 1]"

definition btc_settings :: settings where
  "btc_settings =
     \<lparr>displayFiat = Bool False, unit = ''btc'', fiat = ''usd'', exchangeRate = Map.empty\<rparr>"

text \<open>A table with a single unit, of \<open>d\<close> satoshis, and the settings that select it.\<close>

definition one_unit :: "rat \<Rightarrow> units_table" where
  "one_unit d = [''unit'' \<mapsto> d]"

definition unit_settings :: settings where
  "unit_settings =
     \<lparr>displayFiat = Bool False, unit = ''unit'', fiat = ''usd'', exchangeRate = Map.empty\<rparr>"


text \<open>
  A formatter of the platform for the concrete runs: en-US with the currency USD, which
  groups the integer digits in threes and prints two fraction digits of the shortest
  decimal of the number, rounded with ties away from zero.
\<close>

fun group3 :: "string \<Rightarrow> string" where
  "group3 (a # b # c # d # ds) = a # b # c # CHR '','' # group3 (d # ds)"
| "group3 ds = ds"

definition usd_decimal :: "rat \<Rightarrow> string" where
  "usd_decimal q =
     (let n = nat \<lfloor>\<bar>q\<bar> * 100 + 1/2\<rfloor>
      in (if q < 0 then ''-'' else []) @ ''$'' @ rev (group3 (rev (show_nat (n div 100)))) @
         CHR ''.'' # digits_fixed 2 (n mod 100))"

fun en_US_usd :: "jsnum \<Rightarrow> string" where
  "en_US_usd (Fin y) = usd_decimal (shortest y)"
| "en_US_usd NaN = ''$NaN''"
| "en_US_usd PosInf = CHR ''$'' # infinity_sign"
| "en_US_usd NegInf = ''-$'' @ infinity_sign"

declare en_US_usd.simps [simp del]

section \<open>Lemmas: rounding to binary64\<close>

lemma round_even_int: "round_even (of_int k) = k"
  by (simp add: round_even_def)

lemma round_even_err: "\<bar>of_int (round_even x) - x\<bar> \<le> 1/2"
proof -
  have "of_int \<lfloor>x\<rfloor> \<le> x" "x < of_int \<lfloor>x\<rfloor> + 1" by linarith+
  then show ?thesis by (auto simp: round_even_def Let_def abs_le_iff)
qed

lemma powi2_diff: "(2::rat) powi (a - b) = 2 powi a / 2 powi b"
  by (simp add: power_int_diff)

lemma powi2_pos: "(0::rat) < 2 powi n"
  by (simp add: zero_less_power_int)

lemma powi_less_mono:
  assumes "(2::rat) powi a < 2 powi b" shows "a < b"
proof (rule ccontr)
  assume "\<not> a < b"
  then have "b \<le> a" by simp
  then have "(2::rat) powi b \<le> 2 powi a" by (intro power_int_increasing) auto
  with assms show False by simp
qed

lemma bitlen_pow_bounds:
  assumes "0 < (p::int)"
  shows "(2::rat) powi (bitlen p - 1) \<le> of_int p" "of_int p < (2::rat) powi (bitlen p)"
proof -
  from bitlen_bounds [OF assms]
  have a: "2 ^ nat (bitlen p - 1) \<le> p" and b: "p < 2 ^ nat (bitlen p)" by auto
  have pos: "1 \<le> bitlen p" using assms bitlen_nonneg [of p] bitlen_eq_zero_iff [of p]
    by (cases "bitlen p = 0") auto
  have "(2::rat) powi (bitlen p - 1) = of_int (2 ^ nat (bitlen p - 1))"
    using pos by (simp add: power_int_def)
  also have "\<dots> \<le> of_int p" using a by (simp only: of_int_le_iff)
  finally show "(2::rat) powi (bitlen p - 1) \<le> of_int p" .
  have "(2::rat) powi (bitlen p) = of_int (2 ^ nat (bitlen p))"
    using pos by (simp add: power_int_def)
  moreover have "(of_int p :: rat) < of_int (2 ^ nat (bitlen p))"
    using b by (simp only: of_int_less_iff)
  ultimately show "of_int p < (2::rat) powi (bitlen p)" by simp
qed

lemma ilog2_bounds:
  assumes "0 < x"
  shows "2 powi (ilog2 x) \<le> x" "x < 2 powi (ilog2 x + 1)"
proof -
  obtain p q where pq: "quotient_of x = (p, q)" by (cases "quotient_of x")
  then have q: "0 < q" and x: "x = of_int p / of_int q"
    by (auto dest: quotient_of_denom_pos quotient_of_div)
  have p: "0 < p" using assms q x by (simp add: zero_less_divide_iff)
  define k where "k = bitlen p - bitlen q"
  note bp = bitlen_pow_bounds [OF p] and bq = bitlen_pow_bounds [OF q]
  have qpos: "(0::rat) < of_int q" using q by simp
  have ppos: "(0::rat) < of_int p" using p by simp
  have tpos: "\<And>n. (0::rat) < 2 powi n" by (simp add: zero_less_power_int)
  have up: "x < 2 powi (k + 1)"
  proof -
    have "x < 2 powi (bitlen p) / of_int q"
      unfolding x using bp(2) qpos by (simp add: divide_strict_right_mono)
    also have "\<dots> \<le> 2 powi (bitlen p) / 2 powi (bitlen q - 1)"
      using bq(1) qpos tpos by (intro divide_left_mono) (auto intro: mult_pos_pos less_imp_le)
    also have "\<dots> = 2 powi (k + 1)"
    proof -
      have "k + 1 = bitlen p - (bitlen q - 1)" by (simp add: k_def)
      then show ?thesis by (simp only: powi2_diff)
    qed
    finally show ?thesis .
  qed
  have lo: "2 powi (k - 1) \<le> x"
  proof -
    have "k - 1 = (bitlen p - 1) - bitlen q" by (simp add: k_def)
    then have "(2::rat) powi (k - 1) = 2 powi (bitlen p - 1) / 2 powi (bitlen q)"
      by (simp only: powi2_diff)
    also have "\<dots> \<le> of_int p / 2 powi (bitlen q)"
      using bp(1) by (simp add: divide_right_mono)
    also have "\<dots> \<le> of_int p / of_int q"
      using bq(2) qpos ppos tpos by (intro divide_left_mono) (auto intro: mult_pos_pos less_imp_le)
    finally show ?thesis by (simp add: x)
  qed
  have il: "ilog2 x = (if 2 powi k \<le> x then k else k - 1)"
    by (simp add: ilog2_def pq k_def)
  show "2 powi (ilog2 x) \<le> x" using lo by (simp add: il)
  show "x < 2 powi (ilog2 x + 1)" using up by (auto simp: il)
qed

lemma ilog2_unique:
  assumes "2 powi k \<le> x" "x < 2 powi (k + 1)"
  shows "ilog2 x = k"
proof -
  have "(0::rat) < 2 powi k" by (rule powi2_pos)
  with assms(1) have x: "0 < x" by linarith
  note b = ilog2_bounds [OF x]
  have "(2::rat) powi k < 2 powi (ilog2 x + 1)" using assms(1) b(2) by simp
  then have 1: "k < ilog2 x + 1" by (rule powi_less_mono)
  have "(2::rat) powi (ilog2 x) < 2 powi (k + 1)" using assms(2) b(1) by simp
  then have 2: "ilog2 x < k + 1" by (rule powi_less_mono)
  from 1 2 show ?thesis by simp
qed

lemma fl_abs_err:
  assumes "x \<noteq> 0"
  shows "\<bar>of_int (round_even (x / 2 powi fl_exp x)) * 2 powi fl_exp x - x\<bar> \<le> 2 powi fl_exp x / 2"
proof -
  define e where "e = fl_exp x"
  have tpos: "(0::rat) < 2 powi e" by (simp add: zero_less_power_int)
  have "\<bar>of_int (round_even (x / 2 powi e)) * 2 powi e - x\<bar>
        = \<bar>of_int (round_even (x / 2 powi e)) - x / 2 powi e\<bar> * 2 powi e"
  proof -
    have "of_int (round_even (x / 2 powi e)) * 2 powi e - x
          = (of_int (round_even (x / 2 powi e)) - x / 2 powi e) * 2 powi e"
      using tpos by (simp add: left_diff_distrib)
    then show ?thesis using tpos by (simp add: abs_mult)
  qed
  also have "\<dots> \<le> (1/2) * 2 powi e"
    using round_even_err [of "x / 2 powi e"] tpos by (intro mult_right_mono) auto
  finally show ?thesis by (simp add: e_def)
qed

lemma fl_rel_err:
  assumes "2 powi (- 1022) \<le> \<bar>x\<bar>" "\<bar>x\<bar> < 2 ^ 1023"
  shows "\<exists>y. fl x = Fin y \<and> \<bar>y - x\<bar> \<le> \<bar>x\<bar> / 2 ^ 53"
proof -
  have "(0::rat) < 2 powi (- 1022)" by (simp add: zero_less_power_int)
  with assms have ax: "0 < \<bar>x\<bar>" by linarith
  then have x0: "x \<noteq> 0" by simp
  note b = ilog2_bounds [OF ax]
  have "(2::rat) powi (- 1022) < 2 powi (ilog2 \<bar>x\<bar> + 1)" using assms(1) b(2) by simp
  then have "- 1022 < ilog2 \<bar>x\<bar> + 1" by (rule powi_less_mono)
  then have e: "fl_exp x = ilog2 \<bar>x\<bar> - 52" by (simp add: fl_exp_def)
  define y :: rat where "y = of_int (round_even (x / 2 powi fl_exp x)) * 2 powi fl_exp x"
  have "\<bar>y - x\<bar> \<le> 2 powi fl_exp x / 2" unfolding y_def by (rule fl_abs_err [OF x0])
  also have "\<dots> = 2 powi (ilog2 \<bar>x\<bar>) / 2 ^ 53"
    by (simp add: e power_int_diff)
  also have "\<dots> \<le> \<bar>x\<bar> / 2 ^ 53" using b(1) by (simp add: divide_right_mono)
  finally have err: "\<bar>y - x\<bar> \<le> \<bar>x\<bar> / 2 ^ 53" .
  have "\<bar>y\<bar> \<le> \<bar>x\<bar> + \<bar>y - x\<bar>" by simp
  also have "\<dots> \<le> \<bar>x\<bar> + \<bar>x\<bar> / 2 ^ 53" using err by simp
  also have "\<dots> \<le> \<bar>x\<bar> * 2" by simp
  also have "\<dots> < 2 ^ 1023 * 2" using assms(2) by simp
  finally have "\<not> 2 ^ 1024 \<le> \<bar>y\<bar>" by simp
  then have "fl x = Fin y" using x0 by (simp add: fl_def y_def Let_def)
  with err show ?thesis by blast
qed

lemma fl_exact:
  assumes "x / 2 powi fl_exp x = of_int m" "\<bar>x\<bar> < 2 ^ 1024"
  shows "fl x = Fin x"
proof (cases "x = 0")
  case True
  then show ?thesis by (simp add: fl_def)
next
  case False
  have "(2::rat) powi fl_exp x \<noteq> 0" by simp
  then have "of_int m * 2 powi fl_exp x = x" using assms(1) by (simp add: field_simps)
  then have "of_int (round_even (x / 2 powi fl_exp x)) * 2 powi fl_exp x = x"
    by (simp add: assms(1) round_even_int)
  then show ?thesis using False assms(2) by (simp add: fl_def Let_def)
qed

lemma fl_int:
  assumes "\<bar>k\<bar> \<le> 2 ^ 53"
  shows "fl (of_int k) = Fin (of_int k)"
proof (cases "k = 0")
  case True
  then show ?thesis by (simp add: fl_def)
next
  case False
  define x :: rat where "x = of_int k"
  have ax: "\<bar>x\<bar> = of_int \<bar>k\<bar>" by (simp add: x_def)
  have x1: "1 \<le> \<bar>x\<bar>" using False unfolding ax by (simp only: of_int_1_le_iff)
  have x53: "\<bar>x\<bar> \<le> 2 ^ 53" using assms unfolding ax
    by (metis of_int_le_iff of_int_numeral of_int_power)
  have pos: "0 < \<bar>x\<bar>" using x1 by simp
  note b = ilog2_bounds [OF pos]
  have "(2::rat) powi 0 < 2 powi (ilog2 \<bar>x\<bar> + 1)" using x1 b(2) by simp
  then have L0: "0 \<le> ilog2 \<bar>x\<bar>" using powi_less_mono by fastforce
  have "(2::rat) powi (ilog2 \<bar>x\<bar>) < 2 powi 54" using x53 b(1) by simp
  then have L53: "ilog2 \<bar>x\<bar> \<le> 53" using powi_less_mono by fastforce
  have e: "fl_exp x = ilog2 \<bar>x\<bar> - 52" using L0 by (simp add: fl_exp_def)
  have big: "\<bar>x\<bar> < 2 ^ 1024" using x53 by simp
  have "\<exists>m. x / 2 powi fl_exp x = of_int m"
  proof (cases "ilog2 \<bar>x\<bar> = 53")
    case True
    then have "2 ^ 53 \<le> \<bar>x\<bar>" using b(1) by simp
    with x53 have "\<bar>x\<bar> = 2 ^ 53" by simp
    then have "x = 2 ^ 53 \<or> x = - (2 ^ 53)" by (simp add: abs_if split: if_splits)
    moreover have "fl_exp x = 1" using True e by simp
    ultimately have "x / 2 powi fl_exp x = of_int (2 ^ 52) \<or> x / 2 powi fl_exp x = of_int (- (2 ^ 52))"
      by auto
    then show ?thesis by blast
  next
    case False
    with L53 have le: "fl_exp x \<le> 0" using e by simp
    then have "(2::rat) powi fl_exp x = 1 / 2 ^ nat (- fl_exp x)"
      by (simp add: power_int_def inverse_eq_divide power_one_over [symmetric] del: power_one_over)
    then have "x / 2 powi fl_exp x = of_int (k * 2 ^ nat (- fl_exp x))"
      by (simp add: x_def)
    then show ?thesis by blast
  qed
  then obtain m where "x / 2 powi fl_exp x = of_int m" ..
  from fl_exact [OF this big] show ?thesis by (simp add: x_def)
qed

section \<open>Lemmas: the shortest decimal\<close>

lemma powi10_pos: "(0::rat) < 10 powi n"
  by (simp add: zero_less_power_int)

lemma powi10_diff: "(10::rat) powi (a - b) = 10 powi a / 10 powi b"
  by (simp add: power_int_diff)

lemma powi10_less_mono:
  assumes "(10::rat) powi a < 10 powi b" shows "a < b"
proof (rule ccontr)
  assume "\<not> a < b"
  then have "b \<le> a" by simp
  then have "(10::rat) powi b \<le> 10 powi a" by (intro power_int_increasing) auto
  with assms show False by simp
qed

lemma floorlog10_bounds:
  assumes "0 < (p::int)"
  shows "(10::rat) powi (int (floorlog 10 (nat p)) - 1) \<le> of_int p"
    and "of_int p < (10::rat) powi int (floorlog 10 (nat p))"
proof -
  define L where "L = floorlog 10 (nat p)"
  have np: "0 < nat p" using assms by simp
  from floorlog_bounds [OF np, of 10]
  have a: "10 ^ (L - 1) \<le> nat p" and b: "nat p < 10 ^ L" by (auto simp: L_def)
  have pos: "1 \<le> L" using b np by (cases L) auto
  have "(10::rat) powi (int L - 1) = 10 ^ (L - 1)"
    using pos by (simp add: power_int_def of_nat_diff)
  also have "\<dots> = of_nat (10 ^ (L - 1))" by simp
  also have "\<dots> \<le> of_nat (nat p)" using a by (simp only: of_nat_le_iff)
  also have "\<dots> = of_int p" using assms by simp
  finally show "(10::rat) powi (int (floorlog 10 (nat p)) - 1) \<le> of_int p" by (simp add: L_def)
  have "(of_int p :: rat) = of_nat (nat p)" using assms by simp
  also have "\<dots> < of_nat (10 ^ L)" using b by (simp only: of_nat_less_iff)
  also have "\<dots> = 10 powi int L" by simp
  finally show "of_int p < (10::rat) powi int (floorlog 10 (nat p))" by (simp add: L_def)
qed

lemma ilog10_bounds:
  assumes "0 < x"
  shows "10 powi (ilog10 x) \<le> x" "x < 10 powi (ilog10 x + 1)"
proof -
  obtain p q where pq: "quotient_of x = (p, q)" by (cases "quotient_of x")
  then have q: "0 < q" and x: "x = of_int p / of_int q"
    by (auto dest: quotient_of_denom_pos quotient_of_div)
  have p: "0 < p" using assms q x by (simp add: zero_less_divide_iff)
  define lp where "lp = int (floorlog 10 (nat p))"
  define lq where "lq = int (floorlog 10 (nat q))"
  define k where "k = lp - lq"
  note bp = floorlog10_bounds [OF p, folded lp_def] and bq = floorlog10_bounds [OF q, folded lq_def]
  have qpos: "(0::rat) < of_int q" using q by simp
  have ppos: "(0::rat) < of_int p" using p by simp
  have tpos: "\<And>n. (0::rat) < 10 powi n" by (simp add: zero_less_power_int)
  have up: "x < 10 powi (k + 1)"
  proof -
    have "x < 10 powi lp / of_int q"
      unfolding x using bp(2) qpos by (simp add: divide_strict_right_mono)
    also have "\<dots> \<le> 10 powi lp / 10 powi (lq - 1)"
      using bq(1) qpos tpos by (intro divide_left_mono) (auto intro: mult_pos_pos less_imp_le)
    also have "\<dots> = 10 powi (k + 1)"
    proof -
      have "k + 1 = lp - (lq - 1)" by (simp add: k_def)
      then show ?thesis by (simp only: powi10_diff)
    qed
    finally show ?thesis .
  qed
  have lo: "10 powi (k - 1) \<le> x"
  proof -
    have "k - 1 = (lp - 1) - lq" by (simp add: k_def)
    then have "(10::rat) powi (k - 1) = 10 powi (lp - 1) / 10 powi lq"
      by (simp only: powi10_diff)
    also have "\<dots> \<le> of_int p / 10 powi lq"
      using bp(1) by (simp add: divide_right_mono)
    also have "\<dots> \<le> of_int p / of_int q"
      using bq(2) qpos ppos tpos by (intro divide_left_mono) (auto intro: mult_pos_pos less_imp_le)
    finally show ?thesis by (simp add: x)
  qed
  have il: "ilog10 x = (if 10 powi k \<le> x then k else k - 1)"
    by (simp add: ilog10_def pq k_def lp_def lq_def)
  show "10 powi (ilog10 x) \<le> x" using lo by (simp add: il)
  show "x < 10 powi (ilog10 x + 1)" using up by (auto simp: il)
qed

text \<open>A finite result of rounding is within half a unit in the last place.\<close>

lemma fl_Fin_err:
  assumes "2 powi (- 1022) \<le> \<bar>x\<bar>" and "fl x = Fin y"
  shows "\<bar>y - x\<bar> \<le> \<bar>x\<bar> / 2 ^ 53"
proof -
  have "(0::rat) < 2 powi (- 1022)" by (simp add: zero_less_power_int)
  with assms have ax: "0 < \<bar>x\<bar>" by linarith
  then have x0: "x \<noteq> 0" by simp
  note b = ilog2_bounds [OF ax]
  have "(2::rat) powi (- 1022) < 2 powi (ilog2 \<bar>x\<bar> + 1)" using assms(1) b(2) by simp
  then have "- 1022 < ilog2 \<bar>x\<bar> + 1" by (rule powi_less_mono)
  then have e: "fl_exp x = ilog2 \<bar>x\<bar> - 52" by (simp add: fl_exp_def)
  define z :: rat where "z = of_int (round_even (x / 2 powi fl_exp x)) * 2 powi fl_exp x"
  have "\<bar>z - x\<bar> \<le> 2 powi fl_exp x / 2" unfolding z_def by (rule fl_abs_err [OF x0])
  also have "\<dots> = 2 powi (ilog2 \<bar>x\<bar>) / 2 ^ 53"
    by (simp add: e power_int_diff)
  also have "\<dots> \<le> \<bar>x\<bar> / 2 ^ 53" using b(1) by (simp add: divide_right_mono)
  finally have err: "\<bar>z - x\<bar> \<le> \<bar>x\<bar> / 2 ^ 53" .
  have "y = z" using assms(2) x0 by (simp add: fl_def z_def Let_def split: if_splits)
  with err show ?thesis by simp
qed

lemma tiny_normal:
  assumes "k \<le> 21"
  shows "(2::rat) powi (- 1022) \<le> 1 / 10 ^ k"
proof -
  have "(10::rat) ^ k \<le> 10 ^ 21" using assms by (intro power_increasing) simp_all
  then have "(1::rat) / 10 ^ 21 \<le> 1 / 10 ^ k" by (intro divide_left_mono) simp_all
  moreover have "(2::rat) powi (- 1022) \<le> 1 / 10 ^ 21" by (simp add: power_int_minus divide_simps)
  ultimately show ?thesis by (rule order_trans [rotated])
qed

lemma scaled_Fin_err:
  fixes m :: int and k :: nat
  assumes "fl (of_int m / 10 ^ k) = Fin y" and "0 < m" and "k \<le> 21"
  shows "\<bar>y * 10 ^ k - of_int m\<bar> \<le> of_int m / 2 ^ 53"
proof -
  define c :: rat where "c = of_int m / 10 ^ k"
  have m1: "(1::rat) \<le> of_int m" using assms(2) by simp
  have "1 / 10 ^ k \<le> c" unfolding c_def using m1 by (simp add: divide_right_mono)
  then have cpos: "0 < c" by (rule less_le_trans [rotated]) simp
  have "2 powi (- 1022) \<le> c" using tiny_normal [OF assms(3)] \<open>1 / 10 ^ k \<le> c\<close> by (rule order_trans)
  then have "2 powi (- 1022) \<le> \<bar>c\<bar>" using cpos by simp
  from fl_Fin_err [OF this assms(1) [folded c_def]] have "\<bar>y - c\<bar> \<le> c / 2 ^ 53"
    using cpos by simp
  then have "\<bar>y - c\<bar> * 10 ^ k \<le> c / 2 ^ 53 * 10 ^ k" by (intro mult_right_mono) simp_all
  moreover have "\<bar>y - c\<bar> * 10 ^ k = \<bar>y * 10 ^ k - of_int m\<bar>"
  proof -
    have "y * 10 ^ k - of_int m = (y - c) * 10 ^ k" by (simp add: c_def left_diff_distrib)
    then show ?thesis by (simp add: abs_mult)
  qed
  moreover have "c / 2 ^ 53 * 10 ^ k = of_int m / 2 ^ 53" by (simp add: c_def)
  ultimately show ?thesis by simp
qed

text \<open>
  Two decimals on the same grid, one of them with fewer than \<open>2\<^sup>5\<^sup>2\<close> units of it, that
  read back as the same number are the same decimal.
\<close>

lemma decimal_unique:
  fixes s m :: int and k :: nat
  assumes "fl (of_int s / 10 ^ k) = Fin y" and "0 < s" and "s < 2 ^ 52" and "k \<le> 21"
    and "fl (of_int m / 10 ^ k) = Fin y" and "0 < m"
  shows "m = s"
proof (rule ccontr)
  assume ne: "m \<noteq> s"
  define Y where "Y = y * 10 ^ k"
  define S :: rat where "S = of_int s"
  define M :: rat where "M = of_int m"
  have a: "\<bar>Y - S\<bar> \<le> S / 2 ^ 53"
    unfolding Y_def S_def using assms(1,2,4) by (rule scaled_Fin_err)
  have b: "\<bar>Y - M\<bar> \<le> M / 2 ^ 53"
    unfolding Y_def M_def using assms(5,6,4) by (rule scaled_Fin_err)
  have "s \<le> 2 ^ 52 - 1" using assms(3) by simp
  then have "(of_int s :: rat) \<le> of_int (2 ^ 52 - 1)" by (simp only: of_int_le_iff)
  then have S: "S \<le> 2 ^ 52 - 1" by (simp add: S_def)
  from ne have "s + 1 \<le> m \<or> m + 1 \<le> s" by linarith
  then have "(of_int (s + 1) :: rat) \<le> of_int m \<or> (of_int (m + 1) :: rat) \<le> of_int s"
    by (simp only: of_int_le_iff)
  then have cases: "S + 1 \<le> M \<or> M + 1 \<le> S" by (simp add: S_def M_def)
  have "Y - S \<le> S / 2 ^ 53" "S - Y \<le> S / 2 ^ 53" using a by linarith+
  then have a': "9007199254740992 * (Y - S) \<le> S" "9007199254740992 * (S - Y) \<le> S"
    by (simp_all add: field_simps)
  have "Y - M \<le> M / 2 ^ 53" "M - Y \<le> M / 2 ^ 53" using b by linarith+
  then have b': "9007199254740992 * (Y - M) \<le> M" "9007199254740992 * (M - Y) \<le> M"
    by (simp_all add: field_simps)
  have S': "S \<le> 4503599627370495" using S by simp
  from cases show False
  proof
    assume h: "S + 1 \<le> M"
    have "9007199254740992 * M - 9007199254740992 * S \<le> S + M"
      using a'(1) b'(2) by (simp add: algebra_simps)
    moreover have "9007199254740991 * (S + 1) \<le> 9007199254740991 * M" using h by simp
    ultimately have "9007199254740991 \<le> 2 * S" by (simp add: algebra_simps)
    with S' show False by simp
  next
    assume h: "M + 1 \<le> S"
    have "9007199254740992 * S - 9007199254740992 * M \<le> S + M"
      using a'(2) b'(1) by (simp add: algebra_simps)
    moreover have "9007199254740993 * (M + 1) \<le> 9007199254740993 * S" using h by simp
    ultimately have "9007199254740993 \<le> 2 * S" by (simp add: algebra_simps)
    with S' show False by simp
  qed
qed

text \<open>
  One step of the search, while its grid \<open>10\<^sup>e\<close> is no finer than the grid \<open>10\<^sup>-\<^sup>k\<close> of
  the decimal \<open>s / 10\<^sup>k\<close>: a candidate that reads back as \<open>y\<close> is that decimal, and on the
  grid \<open>10\<^sup>-\<^sup>k\<close> itself the decimal is one of the two candidates.
\<close>

lemma decimal_level:
  fixes s :: int and k :: nat
  assumes y: "fl (of_int s / 10 ^ k) = Fin y" and s: "0 < s" "s < 2 ^ 52" and k: "k \<le> 21"
    and ylo: "1 / 10 ^ k \<le> y" and n: "1 \<le> n" "int n \<le> ilog10 y + int k + 1"
  defines "e \<equiv> ilog10 y - int n + 1"
  defines "lo \<equiv> decimal_below y e"
  defines "hi \<equiv> lo + 10 powi e"
  shows "fl lo = Fin y \<Longrightarrow> lo = of_int s / 10 ^ k"
    and "fl hi = Fin y \<Longrightarrow> hi = of_int s / 10 ^ k"
    and "lo < hi"
    and "int n = ilog10 y + int k + 1 \<Longrightarrow> lo = of_int s / 10 ^ k \<or> hi = of_int s / 10 ^ k"
proof -
  have ypos: "0 < y" using ylo by (rule less_le_trans [rotated]) simp
  note b = ilog10_bounds [OF ypos]
  define j where "j = nat (e + int k)"
  have ej: "e = int j - int k" using n(2) by (simp add: j_def e_def)
  have pe: "(10::rat) powi e = 10 ^ j / 10 ^ k"
    unfolding ej by (simp only: powi10_diff power_int_of_nat)
  define a where "a = \<lfloor>y / 10 powi e\<rfloor>"
  have "e \<le> ilog10 y" using n(1) by (simp add: e_def)
  then have "(10::rat) powi e \<le> 10 powi (ilog10 y)" by (intro power_int_increasing) auto
  then have "10 powi e \<le> y" using b(1) by (rule order_trans)
  then have "1 \<le> y / 10 powi e" using powi10_pos [of e] by (simp add: le_divide_eq)
  then have a1: "1 \<le> a" unfolding a_def by (simp add: le_floor_iff)
  have lo: "lo = of_int (a * 10 ^ j) / 10 ^ k"
    by (simp add: lo_def decimal_below_def a_def pe)
  have hi: "hi = of_int ((a + 1) * 10 ^ j) / 10 ^ k"
    by (simp add: hi_def lo pe add_divide_distrib distrib_right)
  have mlo: "0 < a * 10 ^ j" using a1 by simp
  have mhi: "0 < (a + 1) * 10 ^ j" using a1 by simp
  show "lo = of_int s / 10 ^ k" if "fl lo = Fin y"
  proof -
    from that have "fl (of_int (a * 10 ^ j) / 10 ^ k) = Fin y" by (simp only: lo)
    from decimal_unique [OF y s k this mlo] show ?thesis by (simp only: lo)
  qed
  show "hi = of_int s / 10 ^ k" if "fl hi = Fin y"
  proof -
    from that have "fl (of_int ((a + 1) * 10 ^ j) / 10 ^ k) = Fin y" by (simp only: hi)
    from decimal_unique [OF y s k this mhi] show ?thesis by (simp only: hi)
  qed
  show "lo < hi" using powi10_pos [of e] by (simp add: hi_def)
  show "lo = of_int s / 10 ^ k \<or> hi = of_int s / 10 ^ k" if "int n = ilog10 y + int k + 1"
  proof -
    from that have j0: "j = 0" by (simp add: j_def e_def)
    have pe0: "(10::rat) powi e = 1 / 10 ^ k" using pe j0 by simp
    have a': "a = \<lfloor>y * 10 ^ k\<rfloor>" by (simp add: a_def pe0)
    have err: "\<bar>y * 10 ^ k - of_int s\<bar> \<le> of_int s / 2 ^ 53"
      using y s(1) k by (rule scaled_Fin_err)
    have "s \<le> 2 ^ 52 - 1" using s(2) by simp
    then have "(of_int s :: rat) \<le> of_int (2 ^ 52 - 1)" by (simp only: of_int_le_iff)
    then have "(of_int s :: rat) \<le> 4503599627370495" by simp
    then have "(of_int s :: rat) / 2 ^ 53 < 1/2" by simp
    with err have near: "\<bar>y * 10 ^ k - of_int s\<bar> < 1/2" by linarith
    have "of_int s - 1 \<le> y * 10 ^ k" using near by linarith
    then have "of_int (s - 1) \<le> y * 10 ^ k" by simp
    then have g1: "s - 1 \<le> a" unfolding a' by (simp only: le_floor_iff)
    have "y * 10 ^ k < of_int s + 1" using near by linarith
    then have "y * 10 ^ k < of_int (s + 1)" by simp
    then have g2: "a < s + 1" unfolding a' by (simp only: floor_less_iff)
    from g1 g2 have "a = s \<or> a + 1 = s" by linarith
    then show ?thesis using lo hi j0 by auto
  qed
qed

lemma shortest_search_decimal:
  fixes s :: int and k :: nat
  assumes y: "fl (of_int s / 10 ^ k) = Fin y" and s: "0 < s" "s < 2 ^ 52" and k: "k \<le> 21"
    and ylo: "1 / 10 ^ k \<le> y"
    and n: "1 \<le> n" "int n \<le> ilog10 y + int k + 1" "ilog10 y + int k + 1 - int n < int r"
  shows "shortest_search y n r = of_int s / 10 ^ k"
  using n
proof (induction r arbitrary: n)
  case 0
  then show ?case by simp
next
  case (Suc r)
  define e where "e = ilog10 y - int n + 1"
  define lo where "lo = decimal_below y e"
  define hi where "hi = lo + 10 powi e"
  note L = decimal_level [OF y s k ylo Suc.prems(1,2), folded e_def, folded lo_def, folded hi_def]
  have step: "shortest_search y n (Suc r) =
      (if fl lo = Fin y \<and> (fl hi \<noteq> Fin y \<or> y - lo \<le> hi - y) then lo
       else if fl hi = Fin y then hi
       else shortest_search y (Suc n) r)"
    by (simp add: e_def lo_def hi_def Let_def)
  show ?case
  proof (cases "fl lo = Fin y")
    case True
    then have l: "lo = of_int s / 10 ^ k" by (rule L(1))
    have "fl hi \<noteq> Fin y"
    proof
      assume "fl hi = Fin y"
      then have "hi = of_int s / 10 ^ k" by (rule L(2))
      with l L(3) show False by simp
    qed
    with True l show ?thesis unfolding step by simp
  next
    case False
    show ?thesis
    proof (cases "fl hi = Fin y")
      case True
      then have "hi = of_int s / 10 ^ k" by (rule L(2))
      with True False show ?thesis unfolding step by simp
    next
      case nohi: False
      have ne: "int n \<noteq> ilog10 y + int k + 1"
      proof
        assume "int n = ilog10 y + int k + 1"
        from L(4) [OF this] y False nohi show False by auto
      qed
      have "shortest_search y (Suc n) r = of_int s / 10 ^ k"
        using Suc.prems ne by (intro Suc.IH) auto
      with False nohi show ?thesis unfolding step by simp
    qed
  qed
qed

lemma shortest_search_decimal_start:
  fixes s :: int and k :: nat
  assumes y: "fl (of_int s / 10 ^ k) = Fin y" and s: "0 < s" "s < 2 ^ 52" and k: "k \<le> 21"
    and ylo: "1 / 10 ^ k \<le> y"
  shows "shortest_search y 1 16 = of_int s / 10 ^ k"
proof -
  have ypos: "0 < y" using ylo by (rule less_le_trans [rotated]) simp
  note b = ilog10_bounds [OF ypos]
  have "(10::rat) powi (- int k) = 1 / 10 ^ k" by (simp add: power_int_minus divide_simps)
  then have "(10::rat) powi (- int k) < 10 powi (ilog10 y + 1)" using ylo b(2) by simp
  then have lo: "- int k < ilog10 y + 1" by (rule powi10_less_mono)
  have err: "\<bar>y * 10 ^ k - of_int s\<bar> \<le> of_int s / 2 ^ 53"
    using y s(1) k by (rule scaled_Fin_err)
  have "s \<le> 2 ^ 52 - 1" using s(2) by simp
  then have "(of_int s :: rat) \<le> of_int (2 ^ 52 - 1)" by (simp only: of_int_le_iff)
  then have S: "(of_int s :: rat) \<le> 4503599627370495" by simp
  then have "(of_int s :: rat) / 2 ^ 53 < 1/2" by simp
  with err have "y * 10 ^ k < of_int s + 1/2" by linarith
  with S have Y: "y * 10 ^ k < 10 ^ 16" by simp
  have "(10::rat) powi (ilog10 y + int k) = 10 powi (ilog10 y) * 10 ^ k"
    by (simp add: power_int_add)
  also have "\<dots> \<le> y * 10 ^ k" using b(1) by (intro mult_right_mono) simp_all
  also have "\<dots> < 10 powi 16" using Y by simp
  finally have hi: "ilog10 y + int k < 16" by (rule powi10_less_mono)
  show ?thesis
    using lo hi by (intro shortest_search_decimal [OF y s k ylo]) simp_all
qed

text \<open>
  The shortest decimal of the number that a decimal \<open>s / 10\<^sup>k\<close> with \<open>s < 2\<^sup>5\<^sup>2\<close> reads as
  is that decimal.
\<close>

lemma shortest_decimal:
  fixes s :: int and k :: nat
  assumes y: "fl (of_int s / 10 ^ k) = Fin y" and s: "0 < s" "s < 2 ^ 52" and k: "k \<le> 20"
  shows "shortest y = of_int s / 10 ^ k"
proof -
  have k': "k \<le> 21" using k by simp
  have err: "\<bar>y * 10 ^ k - of_int s\<bar> \<le> of_int s / 2 ^ 53"
    using y s(1) k' by (rule scaled_Fin_err)
  have S1: "(1::rat) \<le> of_int s" using s(1) by simp
  have "s \<le> 2 ^ 52 - 1" using s(2) by simp
  then have "(of_int s :: rat) \<le> of_int (2 ^ 52 - 1)" by (simp only: of_int_le_iff)
  then have "(of_int s :: rat) \<le> 4503599627370495" by simp
  then have "(of_int s :: rat) / 2 ^ 53 < 1/2" by simp
  with err have near: "\<bar>y * 10 ^ k - of_int s\<bar> < 1/2" by linarith
  then have Yhalf: "1/2 < y * 10 ^ k" using S1 by linarith
  then have "0 < y * 10 ^ k" by linarith
  then have ypos: "0 < y" by (simp add: zero_less_mult_iff)
  then have sh: "shortest y = shortest_search y 1 16" by (simp add: shortest_def)
  show ?thesis
  proof (cases "1 / 10 ^ k \<le> y")
    case True
    from shortest_search_decimal_start [OF y s k' True] show ?thesis by (simp only: sh)
  next
    case False
    then have "y * 10 ^ k < 1" by (simp add: field_simps)
    with near have "(of_int s :: rat) < 2" by linarith
    then have "(of_int s :: rat) < of_int 2" by simp
    then have "s < 2" by (simp only: of_int_less_iff)
    with s(1) have s1: "s = 1" by simp
    have y': "fl (of_int 10 / 10 ^ Suc k) = Fin y" using y s1 by simp
    have "(1 :: rat) / 10 ^ Suc k = (1/10) / 10 ^ k" by simp
    also have "\<dots> \<le> (y * 10 ^ k) / 10 ^ k" using Yhalf by (intro divide_right_mono) simp_all
    finally have ylo: "1 / 10 ^ Suc k \<le> y" by simp
    have "shortest_search y 1 16 = of_int 10 / 10 ^ Suc k"
      using y' _ _ _ ylo by (rule shortest_search_decimal_start) (use k in simp_all)
    then show ?thesis using s1 by (simp add: sh)
  qed
qed

lemma shortest_0: "shortest 0 = 0"
  by (simp add: shortest_def)

lemma shortest_minus: "shortest (- y) = - shortest y"
  by (simp add: shortest_def sgn_minus)

lemma round_even_near:
  assumes "\<bar>x - of_int m\<bar> < 1/2"
  shows "round_even x = m"
proof (cases "of_int m \<le> x")
  case True
  have "\<lfloor>x\<rfloor> = m" using assms True by (intro floor_unique) linarith+
  then show ?thesis using assms True by (simp add: round_even_def Let_def)
next
  case False
  have f: "\<lfloor>x\<rfloor> = m - 1" using assms False by (intro floor_unique) simp_all
  have "1/2 < x - of_int (m - 1)" using assms False by simp
  then show ?thesis using f by (simp add: round_even_def Let_def)
qed

lemma fl_representable:
  assumes "fl y = Fin y" and "y \<noteq> 0"
  obtains m where "y = of_int m * 2 powi fl_exp y" and "\<bar>y\<bar> < 2 ^ 1024"
proof -
  define m where "m = round_even (y / 2 powi fl_exp y)"
  have "y = of_int m * 2 powi fl_exp y \<and> \<bar>y\<bar> < 2 ^ 1024"
    using assms by (simp add: fl_def Let_def m_def split: if_splits)
  then show ?thesis using that by blast
qed

lemma fl_eval_pos:
  assumes "0 < c" and "ilog2 c = k" and "max (k - 52) (- 1074) = e"
    and "\<bar>c / 2 powi e - of_int m\<bar> < 1/2" and "of_int m * 2 powi e = y" and "\<bar>y\<bar> < 2 ^ 1024"
  shows "fl c = Fin y"
proof -
  have e: "fl_exp c = e" using assms(1,2,3) by (simp add: fl_exp_def)
  have r: "round_even (c / 2 powi e) = m" using assms(4) by (rule round_even_near)
  show ?thesis using assms(1,5,6) by (simp add: fl_def Let_def e r)
qed

text \<open>
  A number that is within one part in \<open>2 \<cdot> 10\<^sup>1\<^sup>6\<close> of a normal binary64 number rounds to
  it: so does the nearest decimal of 17 significant digits.
\<close>

lemma fl_near:
  assumes rep: "fl y = Fin y" and normal: "2 powi (- 1022) \<le> y"
    and near: "\<bar>c - y\<bar> \<le> y / (2 * 10 ^ 16)"
  shows "fl c = Fin y"
proof -
  have pos: "0 < y" using normal powi2_pos [of "- 1022"] by linarith
  define k where "k = ilog2 y"
  note b = ilog2_bounds [OF pos, folded k_def]
  have "(2::rat) powi (- 1022) < 2 powi (k + 1)" using normal b(2) by simp
  then have k1: "- 1022 \<le> k" using powi_less_mono by fastforce
  define e where "e = k - 52"
  have fe: "fl_exp y = e" using k1 pos by (simp add: fl_exp_def k_def e_def)
  define T :: rat where "T = 2 powi e"
  have T: "0 < T" by (simp add: T_def powi2_pos)
  from rep pos obtain m where m: "y = of_int m * T" and fin: "\<bar>y\<bar> < 2 ^ 1024"
    by (metis fl_representable fe T_def less_irrefl)
  have pk: "(2::rat) powi k = 2 ^ 52 * T"
  proof -
    have "k = 52 + e" by (simp add: e_def)
    then show ?thesis by (simp add: T_def power_int_add)
  qed
  have pk1: "(2::rat) powi (k + 1) = 2 ^ 53 * T"
  proof -
    have "k + 1 = 53 + e" by (simp add: e_def)
    then show ?thesis by (simp add: T_def power_int_add)
  qed
  have pkm: "(2::rat) powi (k - 1) = 2 ^ 51 * T"
  proof -
    have "k - 1 = 51 + e" by (simp add: e_def)
    then show ?thesis by (simp add: T_def power_int_add)
  qed
  have ylo: "4503599627370496 * T \<le> y" using b(1) pk by simp
  have yhi: "y < 9007199254740992 * T" using b(2) pk1 by simp
  have "of_int m * T < of_int (2 ^ 53) * T" using yhi m by simp
  then have "(of_int m :: rat) < of_int (2 ^ 53)" using T by (simp only: mult_less_cancel_right_pos)
  then have "m < 2 ^ 53" by (simp only: of_int_less_iff)
  then have "m \<le> 2 ^ 53 - 1" by simp
  then have "(of_int m :: rat) \<le> of_int (2 ^ 53 - 1)" by (simp only: of_int_le_iff)
  then have "of_int m * T \<le> of_int (2 ^ 53 - 1) * T" using T by (intro mult_right_mono) simp_all
  then have yhi': "y \<le> 9007199254740991 * T" using m by simp
  have "of_int (2 ^ 52) * T \<le> of_int m * T" using ylo m by simp
  then have "(of_int (2 ^ 52) :: rat) \<le> of_int m" using T by (simp only: mult_le_cancel_right_pos)
  then have mlo: "2 ^ 52 \<le> m" by (simp only: of_int_le_iff)
  have near': "\<bar>c - y\<bar> \<le> y / 20000000000000000" using near by simp
  have cpos: "0 < c" using near' pos by linarith
  show ?thesis
  proof (cases "2 powi k \<le> c")
    case True
    have "c < 9007199254740992 * T" using near' yhi' T by linarith
    then have "c < 2 powi (k + 1)" using pk1 by simp
    with True have il: "ilog2 c = k" by (rule ilog2_unique)
    have mx: "max (k - 52) (- 1074) = e" using k1 by (simp add: e_def)
    have "\<bar>c - y\<bar> < T / 2" using near' yhi by linarith
    then have "\<bar>c - y\<bar> / T < 1/2" using T by (simp add: field_simps)
    moreover have "c / T - of_int m = (c - y) / T" using T m by (simp add: field_simps)
    ultimately have "\<bar>c / T - of_int m\<bar> < 1/2" using T by (simp add: abs_divide)
    then have "\<bar>c / 2 powi e - of_int m\<bar> < 1/2" by (simp only: T_def)
    from fl_eval_pos [OF cpos il mx this _ fin] m show ?thesis by (simp add: T_def)
  next
    case False
    then have clt: "c < 4503599627370496 * T" using pk by simp
    have "y < 4503599627370497 * T" using near' clt yhi T by linarith
    then have "of_int m * T < of_int (2 ^ 52 + 1) * T" using m by simp
    then have "(of_int m :: rat) < of_int (2 ^ 52 + 1)"
      using T by (simp only: mult_less_cancel_right_pos)
    then have "m < 2 ^ 52 + 1" by (simp only: of_int_less_iff)
    with mlo have m52: "m = 2 ^ 52" by simp
    have y52: "y = 4503599627370496 * T" using m m52 by simp
    have d: "\<bar>c - y\<bar> < T / 4" using near' y52 T by linarith
    have "2251799813685248 * T \<le> c" using d y52 T by linarith
    then have "2 powi (k - 1) \<le> c" using pkm by simp
    moreover have "c < 2 powi (k - 1 + 1)" using False by simp
    ultimately have il: "ilog2 c = k - 1" by (rule ilog2_unique)
    show ?thesis
    proof (cases "k = - 1022")
      case True
      have mx: "max (k - 1 - 52) (- 1074) = e" using True by (simp add: e_def)
      have "\<bar>c - y\<bar> / T < 1/2" using d T by (simp add: field_simps)
      moreover have "c / T - of_int m = (c - y) / T" using T m by (simp add: field_simps)
      ultimately have "\<bar>c / T - of_int m\<bar> < 1/2" using T by (simp add: abs_divide)
      then have "\<bar>c / 2 powi e - of_int m\<bar> < 1/2" by (simp only: T_def)
      from fl_eval_pos [OF cpos il mx this _ fin] m show ?thesis by (simp add: T_def)
    next
      case False
      with k1 have mx: "max (k - 1 - 52) (- 1074) = e - 1" by (simp add: e_def)
      have T': "(2::rat) powi (e - 1) = T / 2" by (simp add: T_def power_int_diff)
      have "c / (T / 2) - of_int (2 ^ 53) = (c - y) * 2 / T" using T y52 by (simp add: field_simps)
      moreover have "\<bar>(c - y) * 2 / T\<bar> < 1/2"
      proof -
        define D where "D = \<bar>c - y\<bar>"
        have "D < T / 4" using d by (simp only: D_def)
        then have "2 * D < T / 2" by linarith
        then have "2 * \<bar>c - y\<bar> < T / 2" by (simp only: D_def)
        then have "2 * \<bar>c - y\<bar> / T < 1/2" using T by (simp add: field_simps)
        moreover have "\<bar>(c - y) * 2 / T\<bar> = 2 * \<bar>c - y\<bar> / T"
        proof -
          have "\<bar>(c - y) * 2\<bar> = \<bar>c - y\<bar> * 2" by (simp only: abs_mult abs_numeral)
          also have "\<dots> = 2 * \<bar>c - y\<bar>" by (rule mult.commute)
          finally have "\<bar>(c - y) * 2\<bar> = 2 * \<bar>c - y\<bar>" .
          then show ?thesis using T by (simp only: abs_divide abs_of_pos)
        qed
        ultimately show ?thesis by (simp only:)
      qed
      ultimately have "\<bar>c / (T / 2) - of_int (2 ^ 53)\<bar> < 1/2" by simp
      then have n: "\<bar>c / 2 powi (e - 1) - of_int (2 ^ 53)\<bar> < 1/2" by (simp only: T')
      have v: "of_int (2 ^ 53) * 2 powi (e - 1) = y" using y52 by (simp add: T')
      from fl_eval_pos [OF cpos il mx n v fin] show ?thesis .
    qed
  qed
qed

lemma nearest_17:
  assumes "0 < y"
  defines "e \<equiv> ilog10 y - 16"
  defines "lo \<equiv> decimal_below y e"
  defines "hi \<equiv> lo + 10 powi e"
  shows "\<bar>(if y - lo \<le> hi - y then lo else hi) - y\<bar> \<le> y / (2 * 10 ^ 16)"
proof -
  define G :: rat where "G = 10 powi e"
  have G: "0 < G" by (simp add: G_def powi10_pos)
  have "of_int \<lfloor>y / G\<rfloor> \<le> y / G" by linarith
  then have 1: "of_int \<lfloor>y / G\<rfloor> * G \<le> y" using G by (simp only: pos_le_divide_eq)
  have "y / G < of_int \<lfloor>y / G\<rfloor> + 1" by linarith
  then have 2: "y < (of_int \<lfloor>y / G\<rfloor> + 1) * G" using G by (simp only: pos_divide_less_eq)
  from 1 2 have l: "lo \<le> y" and h: "y < lo + G"
    by (simp_all add: lo_def decimal_below_def G_def [symmetric] distrib_right)
  have "G = 10 powi (ilog10 y) / 10 ^ 16"
    by (simp add: G_def e_def powi10_diff)
  also have "\<dots> \<le> y / 10 ^ 16"
    using ilog10_bounds(1) [OF assms(1)] by (intro divide_right_mono) simp_all
  finally have "G / 2 \<le> y / 10 ^ 16 / 2" by simp
  then have g: "G / 2 \<le> y / (2 * 10 ^ 16)" by simp
  have "\<bar>(if y - lo \<le> lo + G - y then lo else lo + G) - y\<bar> \<le> G / 2"
    using l h by (simp split: if_splits)
  then show ?thesis using g unfolding hi_def G_def by linarith
qed

text \<open>
  The search is sound: the shortest decimal of a normal binary64 number reads back as the
  number, also when the search goes to 17 digits.
\<close>

lemma shortest_search_reads_back:
  assumes "fl y = Fin y" and "2 powi (- 1022) \<le> y" and "n + r = 17"
  shows "fl (shortest_search y n r) = Fin y"
  using assms(3)
proof (induction r arbitrary: n)
  case 0
  have pos: "0 < y" using assms(2) powi2_pos [of "- 1022"] by linarith
  have e: "ilog10 y - int n + 1 = ilog10 y - 16" using 0 by simp
  show ?case
    using nearest_17 [OF pos]
    by (simp only: shortest_search.simps Let_def e) (rule fl_near [OF assms(1,2)])
next
  case (Suc r)
  then have "fl (shortest_search y (Suc n) r) = Fin y" by (intro Suc.IH) simp
  then show ?case by (simp add: Let_def)
qed

lemma shortest_reads_back_pos:
  assumes "fl y = Fin y" and "2 powi (- 1022) \<le> y"
  shows "fl (shortest y) = Fin y"
proof -
  have pos: "0 < y" using assms(2) powi2_pos [of "- 1022"] by linarith
  then have "shortest y = shortest_search y 1 16" by (simp add: shortest_def)
  then show ?thesis using shortest_search_reads_back [OF assms, of 1 16] by simp
qed

lemma round_even_minus: "round_even (- x) = - round_even x"
proof (cases "x = of_int \<lfloor>x\<rfloor>")
  case True
  then obtain k where "x = of_int k" ..
  then show ?thesis using round_even_int [of k] round_even_int [of "- k"] by simp
next
  case False
  define f where "f = \<lfloor>x\<rfloor>"
  have b: "of_int f < x" "x < of_int f + 1" using False f_def by linarith+
  have nf: "\<lfloor>- x\<rfloor> = - f - 1" using b by (intro floor_unique) simp_all
  have ev: "even (- f - 1) \<longleftrightarrow> odd f" by simp
  show ?thesis
    using b ev by (simp add: round_even_def Let_def nf f_def [symmetric])
qed

lemma fl_minus: "fl x = Fin y \<Longrightarrow> fl (- x) = Fin (- y)"
  by (auto simp: fl_def Let_def fl_exp_def round_even_minus split: if_splits)

text \<open>The same for a number of either sign.\<close>

lemma shortest_reads_back:
  assumes "fl y = Fin y" and "2 powi (- 1022) \<le> \<bar>y\<bar>"
  shows "fl (shortest y) = Fin y"
proof (cases "0 < y")
  case True
  then show ?thesis using assms shortest_reads_back_pos by simp
next
  case False
  have "y \<noteq> 0" using assms(2) powi2_pos [of "- 1022"] by auto
  with False have neg: "y < 0" by simp
  have "fl (- y) = Fin (- y)" using assms(1) by (rule fl_minus)
  moreover have "2 powi (- 1022) \<le> - y" using assms(2) neg by simp
  ultimately have "fl (shortest (- y)) = Fin (- y)" by (rule shortest_reads_back_pos)
  then have "fl (- shortest y) = Fin (- y)" by (simp only: shortest_minus)
  from fl_minus [OF this] show ?thesis by simp
qed








lemma fl_numeral: "\<bar>numeral k :: int\<bar> \<le> 2 ^ 53 \<Longrightarrow> fl (numeral k) = Fin (numeral k)"
  using fl_int [of "numeral k"] by simp

lemma fl_neg_numeral:
  "\<bar>numeral k :: int\<bar> \<le> 2 ^ 53 \<Longrightarrow> fl (- numeral k) = Fin (- numeral k)"
  using fl_int [of "- numeral k"] by simp

lemma fl_0: "fl 0 = Fin 0"
  by (simp add: fl_def)

lemma fl_1: "fl 1 = Fin 1"
  using fl_int [of 1] by simp





section \<open>Lemmas: evaluating literals and strings\<close>

lemma fl_eval:
  assumes "x \<noteq> 0" and "fl_exp x = e" and "x / 2 powi e = c" and "round_even c = m"
    and "of_int m * 2 powi e = y" and "\<bar>y\<bar> < 2 ^ 1024"
  shows "fl x = Fin y"
  using assms by (simp add: fl_def Let_def)

lemma fl_hundredth: "fl (1/100) = Fin (5764607523034235 / 576460752303423488)"
proof (rule fl_eval)
  show "fl_exp (1/100) = - 59" by code_simp
  show "(1/100 :: rat) / 2 powi (- 59) = 144115188075855872 / 25" by (simp add: power_int_minus)
  show "round_even (144115188075855872 / 25) = 5764607523034235" by code_simp
  show "of_int 5764607523034235 * 2 powi (- 59) = (5764607523034235 / 576460752303423488 :: rat)"
    by (simp add: power_int_minus)
qed simp_all



lemma floor_half: "\<lfloor>1/2 :: rat\<rfloor> = 0"
  by code_simp

lemma show_nat_0: "show_nat 0 = ''0''"
  by code_simp

lemma digits_fixed_2: "digits_fixed 2 0 = ''00''" "digits_fixed 2 (Suc 0) = ''01''"
  by code_simp+

lemma str_to_number_empty: "str_to_number [] = Fin 0"
  by (simp add: str_to_number_def trim_def)

lemma str_to_number_dot: "str_to_number ''.'' = NaN"
  by (simp add: str_to_number_def trim_def is_ws_def parse_radix_def parse_decimal_def
      is_digit_def)

lemma str_to_number_abc: "str_to_number ''abc'' = NaN"
  by (simp add: str_to_number_def trim_def is_ws_def parse_radix_def parse_decimal_def
      is_digit_def parse_exponent_def)

section \<open>The claims\<close>

text \<open>
  Claim C7, at the input that fails it. \<open>calculateExchangeRate(100, undefined)\<close> reads
  \<open>settings.displayFiat\<close> of an absent settings object: the engine throws a TypeError, not
  the \<open>Invalid input!\<close> error. \<open>toAmount\<close> and \<open>toSatoshis\<close> test \<open>!settings\<close> first and
  throw \<open>Invalid input!\<close> there.
\<close>

theorem calculateExchangeRate_absent_settings:
  "calculateExchangeRate UNITS (Num (Fin 100)) None = Inl TypeError \<and>
   toAmount UNITS (Num (Fin 100)) None 8 = Inl InvalidInput \<and>
   toSatoshis UNITS (Str ''100'') None = Inl InvalidInput"
  by (simp add: calculateExchangeRate_def toAmount_def toSatoshis_def matches_decimal_def
      is_digit_def)

text \<open>
  \<open>calculateExchangeRate\<close> on present settings. For an integer amount and settings with a boolean
  \<open>displayFiat\<close>, \<open>calculateExchangeRate\<close> is the quotient
  \<open>satoshis / rate / btc\<close> of numbers, the rate being 0 for a currency without an
  exchange rate, in which case the quotient is an infinity or NaN and nothing is thrown.
  An amount that is not an integer, and a \<open>displayFiat\<close> that is not a boolean, throw
  \<open>InvalidInput\<close>.
\<close>

theorem calculateExchangeRate_quotient:
  assumes "isInteger satoshis" and "displayFiat st = Bool b" and "UNITS ''btc'' = Some btc"
  shows "calculateExchangeRate UNITS satoshis (Some st) =
           Inr (js_div (js_div (to_number satoshis) (rate_or_zero st)) (Fin btc)) \<and>
         (exchangeRate st (fiat st) = None \<longrightarrow>
            calculateExchangeRate UNITS satoshis (Some st) \<in> {Inr PosInf, Inr NegInf, Inr NaN}) \<and>
         (\<forall>v s'. \<not> isInteger v \<longrightarrow> calculateExchangeRate UNITS v s' = Inl InvalidInput) \<and>
         (\<forall>st'. (\<forall>b'. displayFiat st' \<noteq> Bool b') \<longrightarrow>
            calculateExchangeRate UNITS satoshis (Some st') = Inl InvalidInput)"
proof -
  obtain q where q: "satoshis = Num (Fin q)"
    using assms(1) by (cases satoshis rule: isInteger.cases) simp_all
  have 1: "calculateExchangeRate UNITS satoshis (Some st) =
           Inr (js_div (js_div (to_number satoshis) (rate_or_zero st)) (Fin btc))"
    using assms by (simp add: calculateExchangeRate_def)
  have 2: "js_div (js_div (Fin q) (Fin 0)) (Fin btc) \<in> {PosInf, NegInf, NaN}"
    by simp
  have 3: "calculateExchangeRate UNITS satoshis (Some st') = Inl InvalidInput"
    if "\<forall>b'. displayFiat st' \<noteq> Bool b'" for st'
  proof (cases "displayFiat st'")
    case (Bool x)
    with that show ?thesis by blast
  qed (use assms(1) in \<open>simp_all add: calculateExchangeRate_def\<close>)
  show ?thesis
    using 1 2 3 by (auto simp: q rate_or_zero_def calculateExchangeRate_def)
qed

theorem calculateExchangeRate_quotient_witness:
  "isInteger (Num (Fin 100)) \<and> displayFiat btc_settings = Bool False \<and>
   UNITS_spec ''btc'' = Some (10 ^ 8) \<and>
   calculateExchangeRate UNITS_spec (Num (Fin 100)) (Some btc_settings) = Inr PosInf \<and>
   calculateExchangeRate UNITS_spec (Num (Fin (1/2))) (Some btc_settings) = Inl InvalidInput"
proof -
  have f: "\<lfloor>1/2 :: rat\<rfloor> = 0" by (rule floor_half)
  show ?thesis
    using calculateExchangeRate_quotient [of "Num (Fin 100)" btc_settings False UNITS_spec "10 ^ 8"]
    by (simp add: btc_settings_def UNITS_spec_def rate_or_zero_def calculateExchangeRate_def f)
qed

text \<open>
  Claim C10. The strings \<open>""\<close> and \<open>"."\<close> match the pattern of \<open>toSatoshis\<close>. With
  \<open>displayFiat = false\<close> and a unit of the table, \<open>toSatoshis("")\<close> is 0 and
  \<open>toSatoshis(".")\<close> is NaN; neither throws, and NaN is not an integer.
\<close>

theorem toSatoshis_empty_and_dot:
  assumes "displayFiat st = Bool False" and "UNITS (unit st) = Some d"
  shows "matches_decimal [] \<and> matches_decimal ''.'' \<and>
         toSatoshis UNITS (Str []) (Some st) = Inr (Fin 0) \<and>
         toSatoshis UNITS (Str ''.'') (Some st) = Inr NaN \<and>
         \<not> isInteger (Num NaN)"
  using assms
  by (simp add: toSatoshis_def matches_decimal_def str_to_number_empty str_to_number_dot fl_0
      floor_half)

theorem toSatoshis_empty_and_dot_witness:
  "displayFiat btc_settings = Bool False \<and> UNITS_spec (unit btc_settings) = Some (10 ^ 8) \<and>
   toSatoshis UNITS_spec (Str []) (Some btc_settings) = Inr (Fin 0) \<and>
   toSatoshis UNITS_spec (Str ''.'') (Some btc_settings) = Inr NaN"
  using toSatoshis_empty_and_dot [of btc_settings UNITS_spec "10 ^ 8"]
  by (simp add: btc_settings_def UNITS_spec_def)

text \<open>
  Claim C9, amended. \<open>formatNumber\<close> has no step that fails on an undefined, null, boolean,
  number or string value, and neither has \<open>formatFiat\<close> once its formatter is built: a
  value that \<open>Number\<close> coerces to NaN is formatted as 0 is. But \<open>formatFiat\<close> fails when
  the formatter cannot be built: with a TypeError exactly when the currency is undefined,
  with a RangeError exactly when the string of the currency is not three letters. With any
  other currency it returns a string.
\<close>

theorem format_substitutes_zero:
  "(to_number val = NaN \<longrightarrow>
      formatNumber intl val = formatNumber intl (Num (Fin 0)) \<and>
      formatNumber intl val = intl (Fin 0) \<and>
      formatFiat numberFormat other val currency =
        formatFiat numberFormat other (Num (Fin 0)) currency) \<and>
   (formatFiat numberFormat other val currency = Inl TypeError \<longleftrightarrow> currency = Undefined) \<and>
   (formatFiat numberFormat other val currency = Inl RangeError \<longleftrightarrow>
      currency \<noteq> Undefined \<and> \<not> well_formed_currency_code (to_string other currency)) \<and>
   formatFiat numberFormat other val currency \<noteq> Inl InvalidInput \<and>
   (currency \<noteq> Undefined \<and> well_formed_currency_code (to_string other currency) \<longrightarrow>
      (\<exists>s. formatFiat numberFormat other val currency = Inr s) \<and>
      (to_number val = NaN \<longrightarrow>
         formatFiat numberFormat other val currency =
           Inr (numberFormat (to_string other currency) (Fin 0))))"
  by (simp add: formatNumber_def formatFiat_def currency_formatter_def js_gt_def Let_def)

theorem format_substitutes_zero_witness:
  "to_number (Str ''abc'') = NaN \<and>
   formatNumber (format_en_US 0 8) (Str ''abc'') = formatNumber (format_en_US 0 8) (Num (Fin 0)) \<and>
   formatNumber (format_en_US 0 8) (Str ''abc'') = ''0'' \<and>
   Str ''usd'' \<noteq> Undefined \<and> well_formed_currency_code (to_string (\<lambda>q. []) (Str ''usd'')) \<and>
   formatFiat (\<lambda>c. en_US_usd) (\<lambda>q. []) (Str ''abc'') (Str ''usd'') = Inr ''$0.00''"
proof -
  have d: "digits_fixed 8 0 = ''00000000''" by code_simp
  have s: "strip_zeros 0 ''00000000'' = []" by code_simp
  have z: "format_en_US 0 8 (Fin 0) = ''0''"
    by (simp add: format_en_US.simps shortest_0 format_decimal_def d s show_nat_0 floor_half)
  have u: "en_US_usd (Fin 0) = ''$0.00''"
    by (simp add: en_US_usd.simps shortest_0 usd_decimal_def show_nat_0 floor_half digits_fixed_2)
  have w: "well_formed_currency_code ''usd''"
    by (simp add: well_formed_currency_code_def is_letter_def)
  show ?thesis
    using format_substitutes_zero
      [of "Str ''abc''" "format_en_US 0 8" "\<lambda>c. en_US_usd" "\<lambda>q. []" "Str ''usd''"]
    by (auto simp: str_to_number_abc z u w)
qed

text \<open>
  Claim C9 as stated fails: \<open>formatFiat("abc", "nope")\<close> throws a RangeError, whatever the
  locale, since \<open>nope\<close> is not a currency code, and \<open>formatFiat(1)\<close>, with no currency,
  throws a TypeError.
\<close>

theorem formatFiat_currency_counterexample:
  "(\<forall>numberFormat other.
      formatFiat numberFormat other (Str ''abc'') (Str ''nope'') = Inl RangeError) \<and>
   (\<forall>numberFormat other. formatFiat numberFormat other (Num (Fin 1)) Undefined = Inl TypeError)"
  by (simp add: formatFiat_def currency_formatter_def well_formed_currency_code_def)



text \<open>
  Claim C5, amended. For finite angles, \<open>generateArc\<close> prints the path of its geometry,
  in which the large-arc flag is \<open>1\<close> exactly when the computed span
  \<open>endAngle - startAngle\<close> exceeds 180, the sweep flag is \<open>1\<close> exactly when \<open>endAngle\<close> is
  360 (whatever the span), and in that case the x-coordinate of the end point is the
  polar-to-cartesian point of \<open>startAngle\<close> minus \<open>0.01\<close>; otherwise the end point is that
  point itself.
\<close>

theorem generateArc_flags_and_nudge:
  assumes "startAngle = Fin s" and "endAngle = Fin e"
  shows "generateArc other mcos msin x y radius startAngle endAngle =
           path_string other x y radius
             (arc_geometry mcos msin x y radius startAngle endAngle) \<and>
         arc_start (arc_geometry mcos msin x y radius startAngle endAngle) =
           polarToCartesian mcos msin x y radius endAngle \<and>
         largeArcFlag (arc_geometry mcos msin x y radius startAngle endAngle) =
           (if js_lt (Fin 180) (js_sub endAngle startAngle) then ''1'' else ''0'') \<and>
         sweepFlag (arc_geometry mcos msin x y radius startAngle endAngle) =
           (if e = 360 then ''1'' else ''0'') \<and>
         point_y (arc_end (arc_geometry mcos msin x y radius startAngle endAngle)) =
           point_y (polarToCartesian mcos msin x y radius startAngle) \<and>
         point_x (arc_end (arc_geometry mcos msin x y radius startAngle endAngle)) =
           (if e = 360
            then js_sub (point_x (polarToCartesian mcos msin x y radius startAngle)) (fl (1/100))
            else point_x (polarToCartesian mcos msin x y radius startAngle))"
proof -
  have le: "js_le (fl (e - s)) (Fin 180) = (\<not> js_lt (Fin 180) (fl (e - s)))"
    by (simp add: js_le_def fl_def Let_def)
  show ?thesis
    unfolding assms by (simp add: generateArc_def arc_geometry_def Let_def js_eq_def le)
qed

theorem generateArc_flags_and_nudge_witness:
  "\<forall>other mcos msin.
     Fin 0 = Fin 0 \<and> Fin 360 = Fin 360 \<and>
     largeArcFlag (arc_geometry mcos msin (Fin 50) (Fin 50) (Fin 50) (Fin 0) (Fin 360)) = ''1'' \<and>
     sweepFlag (arc_geometry mcos msin (Fin 50) (Fin 50) (Fin 50) (Fin 0) (Fin 360)) = ''1'' \<and>
     point_x (arc_end (arc_geometry mcos msin (Fin 50) (Fin 50) (Fin 50) (Fin 0) (Fin 360))) =
       js_sub (point_x (polarToCartesian mcos msin (Fin 50) (Fin 50) (Fin 50) (Fin 0)))
         (Fin (5764607523034235 / 576460752303423488))"
proof (intro allI)
  fix other :: "rat \<Rightarrow> string" and mcos msin :: "jsnum \<Rightarrow> jsnum"
  show "Fin 0 = Fin 0 \<and> Fin 360 = Fin 360 \<and>
     largeArcFlag (arc_geometry mcos msin (Fin 50) (Fin 50) (Fin 50) (Fin 0) (Fin 360)) = ''1'' \<and>
     sweepFlag (arc_geometry mcos msin (Fin 50) (Fin 50) (Fin 50) (Fin 0) (Fin 360)) = ''1'' \<and>
     point_x (arc_end (arc_geometry mcos msin (Fin 50) (Fin 50) (Fin 50) (Fin 0) (Fin 360))) =
       js_sub (point_x (polarToCartesian mcos msin (Fin 50) (Fin 50) (Fin 50) (Fin 0)))
         (Fin (5764607523034235 / 576460752303423488))"
    using generateArc_flags_and_nudge
      [of "Fin 0" 0 "Fin 360" 360 other mcos msin "Fin 50" "Fin 50" "Fin 50"]
    by (simp add: fl_numeral fl_hundredth)
qed

text \<open>
  Claim C5 as stated fails twice. \<open>generateArc(50, 50, 50, 90, 360)\<close> sets the sweep flag
  on a span of 270 degrees; \<open>generateArc(50, 50, 50, 10, 370)\<close> spans exactly 360 degrees,
  leaves the sweep flag \<open>0\<close> and does not move the end point.
\<close>

theorem generateArc_sweep_counterexample:
  "(\<forall>mcos msin.
      sweepFlag (arc_geometry mcos msin (Fin 50) (Fin 50) (Fin 50) (Fin 90) (Fin 360)) = ''1'') \<and>
   js_sub (Fin 360) (Fin 90) = Fin 270 \<and>
   (\<forall>mcos msin.
      sweepFlag (arc_geometry mcos msin (Fin 50) (Fin 50) (Fin 50) (Fin 10) (Fin 370)) = ''0'' \<and>
      arc_end (arc_geometry mcos msin (Fin 50) (Fin 50) (Fin 50) (Fin 10) (Fin 370)) =
        polarToCartesian mcos msin (Fin 50) (Fin 50) (Fin 50) (Fin 10)) \<and>
   js_sub (Fin 370) (Fin 10) = Fin 360"
  by (simp add: arc_geometry_def Let_def js_eq_def fl_numeral)

section \<open>Lemmas: integer division in binary64\<close>

lemma fl_unique_int:
  assumes "\<bar>k\<bar> \<le> 2 ^ 53" and "fl (of_int k) = Fin y"
  shows "y = of_int k"
  using fl_int [OF assms(1)] assms(2) by simp

lemma abs_div_le_abs:
  fixes n d :: int
  assumes "0 < d"
  shows "\<bar>n div d\<bar> \<le> \<bar>n\<bar>"
proof (cases "0 \<le> n")
  case True
  then have "0 \<le> n div d" using assms by (simp add: pos_imp_zdiv_nonneg_iff)
  moreover have "n div d \<le> n div 1" using True assms by (intro zdiv_mono2) simp_all
  ultimately show ?thesis using True by simp
next
  case False
  then have n: "n < 0" by simp
  then have "n div d < 0" using assms by (simp add: pos_imp_zdiv_neg_iff)
  moreover have "n div 1 \<le> n div d" using n assms by (intro zdiv_mono2_neg) simp_all
  ultimately show ?thesis using n by simp
qed

lemma floor_fl_div:
  fixes n d :: int
  assumes n: "\<bar>n\<bar> < 2 ^ 53" and d: "0 < d" "d \<le> 1024"
  shows "\<exists>y. fl (of_int n / of_int d) = Fin y \<and> \<lfloor>y\<rfloor> = n div d"
proof (cases "n mod d = 0")
  case True
  then have "n = (n div d) * d" by auto
  then have x: "(of_int n / of_int d :: rat) = of_int (n div d)"
    using d by (metis nonzero_mult_div_cancel_right of_int_0_eq_iff of_int_mult less_irrefl)
  have "\<bar>n div d\<bar> \<le> \<bar>n\<bar>" using d by (intro abs_div_le_abs)
  then have "\<bar>n div d\<bar> \<le> 2 ^ 53" using n by linarith
  from fl_int [OF this] show ?thesis by (simp add: x)
next
  case False
  define x :: rat where "x = of_int n / of_int d"
  define k where "k = n div d"
  define r where "r = n mod d"
  have "0 \<le> n mod d" "n mod d < d" using d by simp_all
  then have r: "0 < r" "r < d" using False by (simp_all add: r_def)
  have nk: "n = k * d + r" by (simp add: k_def r_def)
  have dpos: "(0::rat) < of_int d" using d by simp
  have xk: "x = of_int k + of_int r / of_int d"
    using dpos by (simp add: x_def nk add_divide_distrib)
  have n0: "n \<noteq> 0" using False by auto
  have lo: "1 / of_int d \<le> \<bar>x\<bar>"
  proof -
    have "(1::rat) \<le> \<bar>of_int n\<bar>" using n0 by (simp add: of_int_abs [symmetric] del: of_int_abs)
    then show ?thesis using dpos by (simp add: x_def divide_right_mono)
  qed
  have "(2::rat) powi (- 1022) \<le> 1 / 1024" by (simp add: power_int_minus divide_simps)
  also have "\<dots> \<le> 1 / of_int d" using d dpos by (simp add: divide_simps)
  finally have small: "2 powi (- 1022) \<le> \<bar>x\<bar>" using lo by simp
  have an: "\<bar>of_int n :: rat\<bar> < 2 ^ 53"
    using n by (metis of_int_abs of_int_less_iff of_int_numeral of_int_power)
  have "\<bar>x\<bar> \<le> \<bar>of_int n\<bar>"
  proof -
    have "(1::rat) \<le> of_int d" using d by simp
    then have "\<bar>of_int n :: rat\<bar> / of_int d \<le> \<bar>of_int n\<bar> / 1"
      by (intro divide_left_mono) auto
    then show ?thesis using dpos by (simp add: x_def)
  qed
  then have big: "\<bar>x\<bar> < 2 ^ 1023" using an by (simp add: order_le_less_trans [OF _ less_trans [of _ "2 ^ 53"]])
  from fl_rel_err [OF small big] obtain y where y: "fl x = Fin y" and err: "\<bar>y - x\<bar> \<le> \<bar>x\<bar> / 2 ^ 53"
    by blast
  have "\<bar>of_int n :: rat\<bar> / 2 ^ 53 < 1" using an by simp
  then have "\<bar>of_int n :: rat\<bar> / 2 ^ 53 / of_int d < 1 / of_int d"
    using dpos by (rule divide_strict_right_mono)
  moreover have "\<bar>x\<bar> / 2 ^ 53 = \<bar>of_int n\<bar> / 2 ^ 53 / of_int d"
    using dpos by (simp add: x_def)
  ultimately have e: "\<bar>y - x\<bar> < 1 / of_int d" using err by simp
  have r1: "1 / of_int d \<le> of_int r / (of_int d :: rat)"
    using r dpos by (simp add: divide_right_mono)
  have r2: "of_int r / (of_int d :: rat) \<le> 1 - 1 / of_int d"
  proof -
    have "r \<le> d - 1" using r by simp
    then have "(of_int r :: rat) \<le> of_int d - 1" by (metis of_int_le_iff of_int_diff of_int_1)
    then have "of_int r / (of_int d :: rat) \<le> (of_int d - 1) / of_int d"
      using dpos by (simp add: divide_right_mono)
    also have "\<dots> = 1 - 1 / of_int d" using dpos by (simp add: diff_divide_distrib)
    finally show ?thesis .
  qed
  have "of_int k < y" using e r1 xk by (simp add: abs_less_iff)
  moreover have "y < of_int k + 1" using e r2 xk by (simp add: abs_less_iff)
  ultimately have "\<lfloor>y\<rfloor> = k" by (intro floor_unique) simp_all
  with y show ?thesis by (simp add: x_def k_def)
qed

lemma trunc_rat_of_int_div:
  fixes n m :: int
  assumes "0 < m"
  shows "of_int n - of_int m * of_int (trunc_rat (of_int n / of_int m)) = (of_int (rem_trunc n m) :: rat)"
proof (cases "0 \<le> n")
  case True
  then have q: "(0::rat) \<le> of_int n / of_int m" using assms by simp
  have "trunc_rat (of_int n / of_int m) = n div m"
    using q by (simp add: trunc_rat_def floor_divide_of_int_eq)
  moreover have "rem_trunc n m = n mod m"
    using True assms by (cases "n = 0") (simp_all add: rem_trunc_def)
  ultimately show ?thesis
    by (simp add: of_int_mult [symmetric] of_int_diff [symmetric] minus_mult_div_eq_mod
        del: of_int_mult of_int_diff)
next
  case False
  then have neg: "n < 0" by simp
  then have q: "\<not> (0::rat) \<le> of_int n / of_int m" using assms by (simp add: divide_less_0_iff not_le)
  have "- (of_int n / (of_int m :: rat)) = of_int (- n) / of_int m" by simp
  then have "\<lfloor>- (of_int n / (of_int m :: rat))\<rfloor> = (- n) div m"
    by (simp only: floor_divide_of_int_eq)
  then have t: "trunc_rat (of_int n / of_int m) = - ((- n) div m)"
    using q by (simp add: trunc_rat_def ceiling_def)
  have r: "rem_trunc n m = - ((- n) mod m)"
    using neg assms by (simp add: rem_trunc_def)
  have "m * ((- n) div m) + (- n) mod m = - n" by (rule mult_div_mod_eq)
  then have key: "n + m * ((- n) div m) = - ((- n) mod m)" by linarith
  have "of_int n - of_int m * of_int (trunc_rat (of_int n / of_int m))
        = (of_int n + of_int m * of_int ((- n) div m) :: rat)"
    by (simp add: t)
  also have "\<dots> = of_int (n + m * ((- n) div m))" by simp
  also have "\<dots> = of_int (rem_trunc n m)" by (simp only: key r)
  finally show ?thesis .
qed

lemma number_to_string_int:
  "\<bar>k\<bar> < 2 ^ 53 \<Longrightarrow> number_to_string other (Fin (of_int k)) = show_int k"
proof -
  assume "\<bar>k\<bar> < 2 ^ 53"
  then have "\<bar>of_int k :: rat\<bar> < 2 ^ 53"
    by (metis of_int_abs of_int_less_iff of_int_numeral of_int_power)
  then show ?thesis by simp
qed

lemma js_eq_int: "js_eq (Fin (of_int k)) (Fin 1) = (k = 1)"
  by (simp add: js_eq_def)

lemma rem_trunc_bound: "0 < m \<Longrightarrow> \<bar>rem_trunc n m\<bar> < m"
  by (simp add: rem_trunc_def abs_mult abs_sgn_eq)

lemma getTimeTilAvailable_int:
  assumes "\<bar>n\<bar> < 2 ^ 53"
  shows "getTimeTilAvailable other (Num (Fin (of_int n))) =
           Inr (time_string (n div 144) (rem_trunc n 144 div 6))"
proof -
  from floor_fl_div [OF assms, of 144]
  obtain y1 where y1: "fl (of_int n / 144) = Fin y1" "\<lfloor>y1\<rfloor> = n div 144" by auto
  have rem: "of_int n - 144 * of_int (trunc_rat (of_int n / 144)) = (of_int (rem_trunc n 144) :: rat)"
    using trunc_rat_of_int_div [of 144 n] by simp
  have "\<bar>rem_trunc n 144\<bar> < 144" by (rule rem_trunc_bound) simp
  then have rb: "\<bar>rem_trunc n 144\<bar> < 2 ^ 53" by simp
  from floor_fl_div [OF rb, of 6]
  obtain y2 where y2: "fl (of_int (rem_trunc n 144) / 6) = Fin y2" "\<lfloor>y2\<rfloor> = rem_trunc n 144 div 6"
    by auto
  have d: "\<bar>n div 144\<bar> < 2 ^ 53" using abs_div_le_abs [of 144 n] assms by simp
  have h: "\<bar>rem_trunc n 144 div 6\<bar> < 2 ^ 53" using abs_div_le_abs [of 6 "rem_trunc n 144"] rb by simp
  show ?thesis
    by (simp add: getTimeTilAvailable_def Let_def y1 rem y2 number_to_string_int [OF d]
        number_to_string_int [OF h] js_eq_int time_string_def del: number_to_string.simps)
qed

lemma show_int_small:
  "show_int 0 = ''0''" "show_int 1 = ''1''" "show_int (- 1) = ''-1''" "show_int 23 = ''23''"
  by code_simp+

text \<open>
  Claim C8, amended. For every integer \<open>n\<close> a number holds exactly (below \<open>2\<^sup>5\<^sup>3\<close> in
  magnitude), \<open>getTimeTilAvailable(n)\<close> is \<open><days> day(s) and <hours> hour(s)\<close> with
  \<open>days = floor(n / 144)\<close> and \<open>hours = floor(r / 6)\<close>, where \<open>r\<close> is the remainder of \<open>n\<close> by
  144 that takes the sign of \<open>n\<close>; each noun is singular exactly at 1. For \<open>n \<ge> 0\<close> that is the
  spec's formula with the mathematical \<open>mod\<close>. A value that is not an integer fails with
  \<open>InvalidInput\<close>.
\<close>

theorem getTimeTilAvailable_blocks:
  assumes "\<bar>n\<bar> < 2 ^ 53"
  shows "getTimeTilAvailable other (Num (Fin (of_int n))) =
           Inr (time_string (n div 144) (rem_trunc n 144 div 6)) \<and>
         (0 \<le> n \<longrightarrow>
            getTimeTilAvailable other (Num (Fin (of_int n))) = Inr (spec_getTimeTilAvailable n)) \<and>
         (\<forall>v. \<not> isInteger v \<longrightarrow> getTimeTilAvailable other v = Inl InvalidInput)"
proof -
  have "rem_trunc n 144 = n mod 144" if "0 \<le> n"
    using that by (cases "n = 0") (simp_all add: rem_trunc_def)
  then show ?thesis
    using getTimeTilAvailable_int [OF assms, of other]
    by (simp add: spec_getTimeTilAvailable_def getTimeTilAvailable_def)
qed

theorem getTimeTilAvailable_blocks_witness:
  "\<bar>150 :: int\<bar> < 2 ^ 53 \<and>
   getTimeTilAvailable (\<lambda>q. []) (Num (Fin 150)) = Inr ''1 day and 1 hour'' \<and>
   getTimeTilAvailable (\<lambda>q. []) (Num (Fin (3/2))) = Inl InvalidInput"
proof -
  have f: "\<lfloor>3/2 :: rat\<rfloor> = 1" by code_simp
  show ?thesis
    using getTimeTilAvailable_blocks [of 150 "\<lambda>q. []"]
    by (simp add: time_string_def rem_trunc_def show_int_small getTimeTilAvailable_def f)
qed

text \<open>
  Claim C8 as stated fails for a negative block count: \<open>getTimeTilAvailable(-1)\<close> is
  \<open>-1 days and -1 hours\<close>, where the spec's formula gives 23 hours.
\<close>

theorem getTimeTilAvailable_negative_counterexample:
  "(\<forall>other. getTimeTilAvailable other (Num (Fin (- 1))) = Inr ''-1 days and -1 hours'') \<and>
   spec_getTimeTilAvailable (- 1) = ''-1 days and 23 hours''"
proof -
  have "getTimeTilAvailable other (Num (Fin (- 1))) = Inr ''-1 days and -1 hours''" for other
    using getTimeTilAvailable_int [of "- 1" other]
    by (simp add: time_string_def rem_trunc_def show_int_small)
  then show ?thesis
    by (simp add: spec_getTimeTilAvailable_def time_string_def show_int_small)
qed

section \<open>Lemmas: digit strings\<close>

lemma digit_cases: "d < 10 \<Longrightarrow> d \<in> {0, 1, 2, 3, 4, 5, 6, 7, 8, 9 :: nat}"
  by auto

lemma is_digit_digit_char: "d < 10 \<Longrightarrow> is_digit (digit_char d)"
  by (drule digit_cases) (auto simp: is_digit_def digit_char_def)

lemma digit_val_digit_char: "d < 10 \<Longrightarrow> digit_val (digit_char d) = d"
  by (drule digit_cases) (auto simp: digit_val_def digit_char_def)

lemma not_digit_dot: "\<not> is_digit CHR ''.''"
  by (simp add: is_digit_def)

lemma nat_of_digits_Nil: "nat_of_digits [] = 0"
  by (simp add: nat_of_digits_def)

lemma nat_of_digits_snoc: "nat_of_digits (ds @ [c]) = 10 * nat_of_digits ds + digit_val c"
  by (simp add: nat_of_digits_def)

lemma nat_of_digits_append:
  "nat_of_digits (xs @ ys) = nat_of_digits xs * 10 ^ length ys + nat_of_digits ys"
proof (induction ys rule: rev_induct)
  case Nil
  then show ?case by (simp add: nat_of_digits_Nil)
next
  case (snoc c ys)
  have "nat_of_digits (xs @ ys @ [c]) = 10 * nat_of_digits (xs @ ys) + digit_val c"
    using nat_of_digits_snoc [of "xs @ ys" c] by simp
  then show ?case by (simp add: snoc.IH nat_of_digits_snoc algebra_simps)
qed

lemma show_nat_digits: "list_all is_digit (show_nat n)"
proof (induction n rule: show_nat.induct)
  case (1 n)
  show ?case
  proof (cases "n < 10")
    case True
    then show ?thesis by (subst show_nat.simps) (simp add: is_digit_digit_char)
  next
    case False
    then show ?thesis using 1 by (subst show_nat.simps) (simp add: is_digit_digit_char)
  qed
qed

lemma show_nat_not_Nil: "show_nat n \<noteq> []"
  by (subst show_nat.simps) simp

lemma nat_of_digits_show_nat: "nat_of_digits (show_nat n) = n"
proof (induction n rule: show_nat.induct)
  case (1 n)
  show ?case
  proof (cases "n < 10")
    case True
    then show ?thesis
      by (subst show_nat.simps) (simp add: nat_of_digits_def digit_val_digit_char)
  next
    case False
    then show ?thesis using 1
      by (subst show_nat.simps) (simp add: nat_of_digits_snoc digit_val_digit_char)
  qed
qed

lemma digits_fixed_digits: "list_all is_digit (digits_fixed k n)"
  by (induction k arbitrary: n) (simp_all add: is_digit_digit_char)

lemma length_digits_fixed: "length (digits_fixed k n) = k"
  by (induction k arbitrary: n) simp_all

lemma nat_of_digits_fixed: "nat_of_digits (digits_fixed k n) = n mod 10 ^ k"
proof (induction k arbitrary: n)
  case 0
  then show ?case by (simp add: nat_of_digits_Nil)
next
  case (Suc k)
  have "n mod (10 * 10 ^ k) = 10 * (n div 10 mod 10 ^ k) + n mod 10"
    by (metis mod_mult2_eq add.commute)
  then show ?case by (simp add: nat_of_digits_snoc Suc.IH digit_val_digit_char)
qed

text \<open>Stripping cuts a block of zeros off the end.\<close>

lemma strip_zeros_decompose:
  "\<exists>j. ds = strip_zeros mn ds @ replicate j CHR ''0''"
proof -
  define tw where "tw = takeWhile (\<lambda>c. c = CHR ''0'') (rev ds)"
  define j where "j = min (length tw) (length ds - mn)"
  have jz: "j \<le> length tw" and jl: "j \<le> length ds" by (simp_all add: j_def)
  have s: "strip_zeros mn ds = take (length ds - j) ds"
    by (simp add: strip_zeros_def tw_def j_def Let_def)
  have "rev ds = tw @ dropWhile (\<lambda>c. c = CHR ''0'') (rev ds)"
    by (simp add: tw_def)
  then have "take j (rev ds) = take j (tw @ dropWhile (\<lambda>c. c = CHR ''0'') (rev ds))"
    by simp
  then have t: "take j (rev ds) = take j tw" using jz by simp
  have "\<forall>c\<in>set (take j tw). c = CHR ''0''"
    unfolding tw_def by (meson in_set_takeD set_takeWhileD)
  moreover have "length (take j tw) = j" using jz by simp
  ultimately have "take j tw = replicate j CHR ''0''"
    using replicate_length_same [of "take j tw" "CHR ''0''"] by simp
  with t have "rev (take j (rev ds)) = replicate j CHR ''0''" by simp
  then have "drop (length ds - j) ds = replicate j CHR ''0''" by (simp add: rev_take)
  then have "ds = take (length ds - j) ds @ replicate j CHR ''0''"
    by (metis append_take_drop_id)
  then show ?thesis unfolding s by (rule exI)
qed

lemma takeWhile_all: "list_all P xs \<Longrightarrow> takeWhile P xs = xs"
  by (induction xs) simp_all

lemma dropWhile_all: "list_all P xs \<Longrightarrow> dropWhile P xs = []"
  by (induction xs) simp_all

lemma takeWhile_digits_dot:
  "list_all is_digit ip \<Longrightarrow> takeWhile is_digit (ip @ CHR ''.'' # r) = ip"
  by (induction ip) (simp_all add: not_digit_dot)

lemma dropWhile_digits_dot:
  "list_all is_digit ip \<Longrightarrow> dropWhile is_digit (ip @ CHR ''.'' # r) = CHR ''.'' # r"
  by (induction ip) (simp_all add: not_digit_dot)

text \<open>The strings of the pattern: digits, or digits, a point and digits.\<close>

lemma matches_decimal_iff:
  "matches_decimal a \<longleftrightarrow>
     (\<exists>ip fp. list_all is_digit ip \<and> list_all is_digit fp \<and> (a = ip \<or> a = ip @ CHR ''.'' # fp))"
proof
  assume m: "matches_decimal a"
  define ip where "ip = takeWhile is_digit a"
  define r1 where "r1 = dropWhile is_digit a"
  have a: "a = ip @ r1" by (simp add: ip_def r1_def)
  have ip: "list_all is_digit ip" unfolding ip_def list_all_iff by (meson set_takeWhileD)
  show "\<exists>ip fp. list_all is_digit ip \<and> list_all is_digit fp \<and> (a = ip \<or> a = ip @ CHR ''.'' # fp)"
  proof (cases r1)
    case Nil
    with a ip show ?thesis by (intro exI [of _ ip] exI [of _ "[]"]) simp
  next
    case (Cons c r)
    have "dropWhile is_digit a \<noteq> []" using Cons by (simp add: r1_def)
    then have "\<not> is_digit (hd (dropWhile is_digit a))" by (rule hd_dropWhile)
    then have nd: "\<not> is_digit c" using Cons by (simp add: r1_def)
    show ?thesis
    proof (cases "c = CHR ''.''")
      case True
      with m Cons have "dropWhile is_digit r = []"
        by (simp add: matches_decimal_def r1_def [symmetric])
      then have "list_all is_digit r" by (simp add: dropWhile_eq_Nil_conv list_all_iff)
      with a ip Cons True show ?thesis by (intro exI [of _ ip] exI [of _ r]) simp
    next
      case False
      with m Cons have "dropWhile is_digit (c # r) = []"
        by (simp add: matches_decimal_def r1_def [symmetric])
      with nd show ?thesis by simp
    qed
  qed
next
  assume "\<exists>ip fp. list_all is_digit ip \<and> list_all is_digit fp \<and> (a = ip \<or> a = ip @ CHR ''.'' # fp)"
  then obtain ip fp where ip: "list_all is_digit ip" and fp: "list_all is_digit fp"
    and a: "a = ip \<or> a = ip @ CHR ''.'' # fp" by blast
  from a show "matches_decimal a"
  proof
    assume "a = ip"
    then show ?thesis using ip by (simp add: matches_decimal_def dropWhile_all)
  next
    assume "a = ip @ CHR ''.'' # fp"
    then have d1: "dropWhile is_digit a = CHR ''.'' # fp"
      using ip by (simp add: dropWhile_digits_dot)
    show ?thesis using fp by (simp add: matches_decimal_def d1 list_all_iff)
  qed
qed

section \<open>Lemmas: \<open>Number\<close> on the strings of the pattern\<close>

lemma digit_or_dot_cases:
  "is_digit c \<or> c = CHR ''.'' \<Longrightarrow> c \<in> set ''0123456789.''"
  by (auto simp: is_digit_def)

lemma digit_or_dot_not_ws: "is_digit c \<or> c = CHR ''.'' \<Longrightarrow> \<not> is_ws c"
  by (drule digit_or_dot_cases) (auto simp: is_ws_def)

lemma digit_or_dot_no_radix: "is_digit c \<or> c = CHR ''.'' \<Longrightarrow> radix_of c = None"
  by (drule digit_or_dot_cases) (auto simp: radix_of_def)

lemma digit_or_dot_no_sign:
  "is_digit c \<or> c = CHR ''.'' \<Longrightarrow> c \<noteq> CHR ''-'' \<and> c \<noteq> CHR ''+'' \<and> c \<noteq> CHR ''I''"
  by (drule digit_or_dot_cases) auto

lemma trim_id:
  assumes "a \<noteq> []" and "\<not> is_ws (hd a)" and "\<not> is_ws (last a)"
  shows "trim a = a"
proof -
  have "dropWhile is_ws a = a" using assms(1,2) by (cases a) simp_all
  moreover have "dropWhile is_ws (rev a) = rev a"
    using assms(1,3) by (cases "rev a") (simp_all add: hd_rev [symmetric] del: hd_rev)
  ultimately show ?thesis by (simp add: trim_def)
qed

lemma parse_radix_None:
  assumes "list_all (\<lambda>c. is_digit c \<or> c = CHR ''.'') a"
  shows "parse_radix a = None"
proof (cases a)
  case Nil
  then show ?thesis by (simp add: parse_radix_def)
next
  case (Cons z r)
  show ?thesis
  proof (cases r)
    case Nil
    with Cons show ?thesis by (simp add: parse_radix_def)
  next
    case (Cons p ds)
    with assms \<open>a = z # r\<close> have "is_digit p \<or> p = CHR ''.''" by simp
    then have "radix_of p = None" by (rule digit_or_dot_no_radix)
    with Cons \<open>a = z # r\<close> show ?thesis by (simp add: parse_radix_def)
  qed
qed

lemma str_to_number_parse_decimal:
  assumes "list_all (\<lambda>c. is_digit c \<or> c = CHR ''.'') a" and "a \<noteq> []"
  shows "str_to_number a = (case parse_decimal a of None \<Rightarrow> NaN | Some q \<Rightarrow> fl q)"
proof -
  have "hd a \<in> set a" "last a \<in> set a" using assms(2) by simp_all
  with assms(1) have h: "is_digit (hd a) \<or> hd a = CHR ''.''"
    and l: "is_digit (last a) \<or> last a = CHR ''.''"
    by (simp_all add: list_all_iff)
  have t: "trim a = a"
    using assms(2) h l by (intro trim_id digit_or_dot_not_ws)
  have s: "hd a \<noteq> CHR ''-''" "hd a \<noteq> CHR ''+''" "hd a \<noteq> CHR ''I''"
    using h digit_or_dot_no_sign by simp_all
  have i: "a \<noteq> ''Infinity''" using s(3) by auto
  have sign: "(case a of [] \<Rightarrow> (False, a)
               | c # r \<Rightarrow> if c = CHR ''-'' then (True, r)
                          else if c = CHR ''+'' then (False, r) else (False, a)) = (False, a)"
    using s(1,2) by (cases a) simp_all
  show ?thesis
    by (simp add: str_to_number_def t assms(2) parse_radix_None [OF assms(1)] sign i
        split: option.split)
qed

lemma parse_exponent_Nil: "parse_exponent [] = Some 0"
  by (simp add: parse_exponent_def)

lemma parse_decimal_digits:
  assumes "list_all is_digit ip"
  shows "parse_decimal ip = (if ip = [] then None else Some (of_nat (nat_of_digits ip)))"
  using assms by (simp add: parse_decimal_def takeWhile_all dropWhile_all parse_exponent_Nil)

lemma parse_decimal_point:
  assumes "list_all is_digit ip" and "list_all is_digit fp"
  shows "parse_decimal (ip @ CHR ''.'' # fp) =
           (if ip = [] \<and> fp = [] then None
            else Some (of_nat (nat_of_digits (ip @ fp)) / 10 ^ length fp))"
  using assms
  by (simp add: parse_decimal_def takeWhile_digits_dot dropWhile_digits_dot takeWhile_all
      dropWhile_all parse_exponent_Nil)









section \<open>Lemmas: parsing what the formatter printed\<close>

lemma str_to_number_digits:
  assumes "list_all is_digit ip" and "ip \<noteq> []"
  shows "str_to_number ip = fl (of_nat (nat_of_digits ip))"
proof -
  have "list_all (\<lambda>c. is_digit c \<or> c = CHR ''.'') ip"
    using assms(1) by (simp add: list_all_iff)
  from str_to_number_parse_decimal [OF this assms(2)] show ?thesis
    using assms(2) by (simp add: parse_decimal_digits [OF assms(1)])
qed

lemma str_to_number_point:
  assumes "list_all is_digit ip" and "list_all is_digit fp" and "ip \<noteq> []"
  shows "str_to_number (ip @ CHR ''.'' # fp) =
           fl (of_nat (nat_of_digits (ip @ fp)) / 10 ^ length fp)"
proof -
  have "list_all (\<lambda>c. is_digit c \<or> c = CHR ''.'') (ip @ CHR ''.'' # fp)"
    using assms(1,2) by (auto simp: list_all_iff)
  moreover have "ip @ CHR ''.'' # fp \<noteq> []" by simp
  ultimately have "str_to_number (ip @ CHR ''.'' # fp) =
      (case parse_decimal (ip @ CHR ''.'' # fp) of None \<Rightarrow> NaN | Some q \<Rightarrow> fl q)"
    by (rule str_to_number_parse_decimal)
  then show ?thesis
    unfolding parse_decimal_point [OF assms(1,2)] using assms(3) by simp
qed

lemma nat_of_digits_zeros: "nat_of_digits (replicate j CHR ''0'') = 0"
  by (induction j) (simp_all add: nat_of_digits_def digit_val_def)

text \<open>
  The rendering of a non-negative decimal with at most eight fraction digits matches the
  pattern of \<open>toSatoshis\<close>, and \<open>Number\<close> reads it back as the rounded decimal.
\<close>

lemma format_parse:
  assumes "0 \<le> q"
  defines "n \<equiv> nat \<lfloor>q * 10 ^ 8 + 1/2\<rfloor>"
  shows "matches_decimal (format_decimal 0 8 q)"
    and "str_to_number (format_decimal 0 8 q) = fl (of_nat n / 10 ^ 8)"
proof -
  define ip where "ip = show_nat (n div 10 ^ 8)"
  define fd where "fd = digits_fixed 8 (n mod 10 ^ 8)"
  define fp where "fp = strip_zeros 0 fd"
  obtain j where j: "fd = fp @ replicate j CHR ''0''"
    using strip_zeros_decompose [of fd 0] unfolding fp_def by blast
  have str: "format_decimal 0 8 q = ip @ (if fp = [] then [] else CHR ''.'' # fp)"
    using assms(1) by (simp add: format_decimal_def n_def ip_def fd_def fp_def Let_def)
  have ip: "list_all is_digit ip" "ip \<noteq> []" and ipv: "nat_of_digits ip = n div 10 ^ 8"
    by (simp_all add: ip_def show_nat_digits show_nat_not_Nil nat_of_digits_show_nat)
  have "list_all is_digit fd" by (simp add: fd_def digits_fixed_digits)
  then have fp: "list_all is_digit fp" by (simp add: j)
  have len: "length fp + j = 8"
    using arg_cong [OF j, of length] by (simp add: fd_def length_digits_fixed)
  have "nat_of_digits fd = n mod 10 ^ 8" by (simp add: fd_def nat_of_digits_fixed)
  then have fpv: "nat_of_digits fp * 10 ^ j = n mod 10 ^ 8"
    by (simp add: j nat_of_digits_append nat_of_digits_zeros)
  show "matches_decimal (format_decimal 0 8 q)"
    unfolding str matches_decimal_iff using ip(1) fp
    by (intro exI [of _ ip] exI [of _ fp]) auto
  show "str_to_number (format_decimal 0 8 q) = fl (of_nat n / 10 ^ 8)"
  proof (cases "fp = []")
    case True
    then have "n mod 10 ^ 8 = 0" using fpv by (simp add: nat_of_digits_Nil)
    then have "n = (n div 10 ^ 8) * 10 ^ 8" by auto
    then have "(of_nat n :: rat) = of_nat (n div 10 ^ 8) * 10 ^ 8"
      by (metis of_nat_mult of_nat_numeral of_nat_power)
    then have "(of_nat n / 10 ^ 8 :: rat) = of_nat (n div 10 ^ 8)" by simp
    then show ?thesis using True by (simp add: str str_to_number_digits [OF ip] ipv)
  next
    case False
    have "n = (n div 10 ^ 8) * 10 ^ 8 + n mod 10 ^ 8" by simp
    also have "\<dots> = (n div 10 ^ 8) * (10 ^ length fp * 10 ^ j) + nat_of_digits fp * 10 ^ j"
      using len fpv by (simp add: power_add [symmetric])
    also have "\<dots> = nat_of_digits (ip @ fp) * 10 ^ j"
      by (simp add: nat_of_digits_append ipv algebra_simps)
    finally have A: "(of_nat n :: rat) = of_nat (nat_of_digits (ip @ fp)) * 10 ^ j"
      by (metis of_nat_mult of_nat_numeral of_nat_power)
    have B: "(10::rat) ^ 8 = 10 ^ length fp * 10 ^ j"
      using len by (simp add: power_add [symmetric])
    have "(of_nat n / 10 ^ 8 :: rat) =
            (of_nat (nat_of_digits (ip @ fp)) * 10 ^ j) / (10 ^ length fp * 10 ^ j)"
      by (simp only: A B)
    also have "\<dots> = of_nat (nat_of_digits (ip @ fp)) / 10 ^ length fp"
      by simp
    finally have "(of_nat n / 10 ^ 8 :: rat) = of_nat (nat_of_digits (ip @ fp)) / 10 ^ length fp" .
    then show ?thesis
      using False by (simp add: str str_to_number_point [OF ip(1) fp ip(2)])
  qed
qed

section \<open>Lemmas: the error of the round trip\<close>

lemma fl_close:
  assumes "1 / 10 ^ 9 \<le> x" and "x \<le> 2 ^ 52"
  obtains y where "fl x = Fin y" and "\<bar>y - x\<bar> \<le> x / 2 ^ 53"
proof -
  have pos: "0 < x" using assms(1) by (rule less_le_trans [rotated]) simp
  have "(2::rat) powi (- 1022) \<le> 1 / 10 ^ 9" by (simp add: power_int_minus divide_simps)
  then have lo: "2 powi (- 1022) \<le> \<bar>x\<bar>" using assms(1) pos by simp
  have hi: "\<bar>x\<bar> < 2 ^ 1023" using assms(2) pos by simp
  from fl_rel_err [OF lo hi] pos that show ?thesis by auto
qed

lemma floor_half_near:
  fixes z :: rat
  assumes "\<bar>z - of_int s\<bar> < 1/2"
  shows "\<lfloor>z + 1/2\<rfloor> = s"
proof (rule floor_unique)
  show "of_int s \<le> z + 1/2" using assms by linarith
  show "z + 1/2 < of_int s + 1" using assms by linarith
qed

text \<open>
  The formatter prints a decimal of at most eight fraction digits as it is: \<open>Number\<close>
  reads the rendering of \<open>s / 10\<^sup>k\<close> back as the number nearest to \<open>s / 10\<^sup>k\<close>.
\<close>

lemma format_decimal_exact:
  fixes s :: int and k :: nat
  assumes "0 \<le> s" and "k \<le> 8"
  shows "matches_decimal (format_decimal 0 8 (of_int s / 10 ^ k))"
    and "str_to_number (format_decimal 0 8 (of_int s / 10 ^ k)) = fl (of_int s / 10 ^ k)"
proof -
  define q :: rat where "q = of_int s / 10 ^ k"
  have q0: "0 \<le> q" using assms(1) by (simp add: q_def)
  have p: "(10::rat) ^ 8 = 10 ^ k * 10 ^ (8 - k)"
    using assms(2) by (simp add: power_add [symmetric])
  have "q * 10 ^ 8 = of_int s / 10 ^ k * (10 ^ k * 10 ^ (8 - k))" by (simp only: q_def p)
  also have "\<dots> = of_int s * 10 ^ (8 - k)" by simp
  also have "\<dots> = of_int (s * 10 ^ (8 - k))" by simp
  finally have i: "q * 10 ^ 8 = of_int (s * 10 ^ (8 - k))" .
  have "\<lfloor>q * 10 ^ 8 + 1/2\<rfloor> = s * 10 ^ (8 - k)" unfolding i by linarith
  moreover have "0 \<le> s * 10 ^ (8 - k)" using assms(1) by simp
  ultimately have "(of_nat (nat \<lfloor>q * 10 ^ 8 + 1/2\<rfloor>) :: rat) = of_int (s * 10 ^ (8 - k))"
    by simp
  then have n: "(of_nat (nat \<lfloor>q * 10 ^ 8 + 1/2\<rfloor>) / 10 ^ 8 :: rat) = q"
    using i by simp
  show "matches_decimal (format_decimal 0 8 (of_int s / 10 ^ k))"
    using format_parse(1) [OF q0] by (simp only: q_def)
  show "str_to_number (format_decimal 0 8 (of_int s / 10 ^ k)) = fl (of_int s / 10 ^ k)"
    using format_parse(2) [OF q0] by (simp only: n) (simp only: q_def)
qed

text \<open>
  Below \<open>2\<^sup>5\<^sup>1\<close> satoshis the two binary64 roundings of the round trip, of the quotient
  and of the product, each cost less than a quarter of a satoshi.
\<close>

lemma roundtrip_core:
  fixes s :: int and k :: nat
  assumes "0 < s" and "s < 2 ^ 51" and "k \<le> 8"
  shows "\<exists>y. fl (of_int s / 10 ^ k) = Fin y \<and> shortest y = of_int s / 10 ^ k \<and>
           js_round (js_mul (Fin y) (Fin (10 ^ k))) = Fin (of_int s)"
proof -
  define S :: rat where "S = of_int s"
  have S1: "1 \<le> S" using assms(1) by (simp add: S_def)
  have "s \<le> 2 ^ 51 - 1" using assms(2) by simp
  then have "(of_int s :: rat) \<le> of_int (2 ^ 51 - 1)" by (simp only: of_int_le_iff)
  then have S2: "S \<le> 2251799813685247" by (simp add: S_def)
  define q where "q = S / 10 ^ k"
  have "(10::rat) ^ k \<le> 10 ^ 8" using assms(3) by (intro power_increasing) simp_all
  then have "(1::rat) / 10 ^ 8 \<le> 1 / 10 ^ k" by (intro divide_left_mono) simp_all
  also have "\<dots> \<le> q" unfolding q_def using S1 by (simp add: divide_right_mono)
  finally have "1 / 10 ^ 8 \<le> q" .
  then have q1: "1 / 10 ^ 9 \<le> q" by (rule order_trans [rotated]) simp
  have "q \<le> S / 1" unfolding q_def using S1 by (intro divide_left_mono) simp_all
  then have q2: "q \<le> 2 ^ 52" using S2 by simp
  from fl_close [OF q1 q2] obtain y where y: "fl q = Fin y" by blast
  have y': "fl (of_int s / 10 ^ k) = Fin y" using y by (simp only: q_def S_def)
  have s52: "s < 2 ^ 52" using assms(2) by simp
  have k20: "k \<le> 20" "k \<le> 21" using assms(3) by simp_all
  have sh: "shortest y = of_int s / 10 ^ k" using y' assms(1) s52 k20(1) by (rule shortest_decimal)
  have "\<bar>y * 10 ^ k - of_int s\<bar> \<le> of_int s / 2 ^ 53"
    using y' assms(1) k20(2) by (rule scaled_Fin_err)
  then have a: "\<bar>y * 10 ^ k - S\<bar> \<le> S / 2 ^ 53" by (simp only: S_def)
  have "S / 2 ^ 53 < 1/4" using S2 by simp
  with a have a4: "\<bar>y * 10 ^ k - S\<bar> < 1/4" by linarith
  have "3/4 \<le> y * 10 ^ k" using a4 S1 by linarith
  then have t1: "1 / 10 ^ 9 \<le> y * 10 ^ k" by (rule order_trans [rotated]) simp
  have lt: "y * 10 ^ k < 2251799813685248" using a4 S2 by linarith
  then have t2: "y * 10 ^ k \<le> 2 ^ 52" by simp
  from fl_close [OF t1 t2] obtain z where z: "fl (y * 10 ^ k) = Fin z"
    and ez: "\<bar>z - y * 10 ^ k\<bar> \<le> y * 10 ^ k / 2 ^ 53"
    by blast
  have "y * 10 ^ k / 2 ^ 53 < 1/4" using lt by simp
  with ez have "\<bar>z - y * 10 ^ k\<bar> < 1/4" by linarith
  with a4 have "\<bar>z - S\<bar> < 1/2" by linarith
  then have "\<lfloor>z + 1/2\<rfloor> = s" unfolding S_def by (rule floor_half_near)
  then have "js_round (Fin z) = Fin (of_int s)" by simp
  moreover have "js_mul (Fin y) (Fin (10 ^ k)) = Fin z" using z by simp
  ultimately have "js_round (js_mul (Fin y) (Fin (10 ^ k))) = Fin (of_int s)" by simp
  with y' sh show ?thesis by blast
qed

lemma toAmount_unit:
  assumes "displayFiat st = Bool False" and "UNITS (unit st) = Some d" and "d \<noteq> 0"
  shows "toAmount UNITS (Num (Fin (of_int s))) (Some st) fiatPrecision =
           Inr (format_en_US 0 8 (fl (of_int s / d)))"
  using assms by (simp add: toAmount_def)

lemma toSatoshis_unit:
  assumes "displayFiat st = Bool False" and "UNITS (unit st) = Some d" and "matches_decimal a"
  shows "toSatoshis UNITS (Str a) (Some st) = Inr (js_round (js_mul (str_to_number a) (Fin d)))"
  using assms by (simp add: toSatoshis_def)

text \<open>
  Claim C1, amended. In unit mode, for a unit whose denominator is a power of ten from 1
  to \<open>10\<^sup>8\<close>, and every integer \<open>0 \<le> s < 2\<^sup>5\<^sup>1\<close>: \<open>toAmount(s, settings)\<close> returns the
  decimal \<open>s / 10\<^sup>k\<close> printed exactly, a string of the pattern of \<open>toSatoshis\<close>, and
  \<open>toSatoshis\<close> of that string returns \<open>s\<close>.
\<close>

theorem toAmount_toSatoshis_round_trip:
  assumes "displayFiat st = Bool False" and "UNITS (unit st) = Some (10 ^ k)" and "k \<le> 8"
    and "0 \<le> s" and "s < 2 ^ 51"
  shows "\<exists>a. toAmount UNITS (Num (Fin (of_int s))) (Some st) fiatPrecision = Inr a \<and>
             a = format_decimal 0 8 (of_int s / 10 ^ k) \<and>
             matches_decimal a \<and>
             toSatoshis UNITS (Str a) (Some st) = Inr (Fin (of_int s))"
proof -
  define a where "a = format_decimal 0 8 (of_int s / 10 ^ k)"
  have d0: "(10::rat) ^ k \<noteq> 0" by simp
  have 2: "matches_decimal a" unfolding a_def using assms(4,3) by (rule format_decimal_exact(1))
  have 3: "str_to_number a = fl (of_int s / 10 ^ k)"
    unfolding a_def using assms(4,3) by (rule format_decimal_exact(2))
  have "\<exists>y. fl (of_int s / 10 ^ k) = Fin y \<and> shortest y = of_int s / 10 ^ k \<and>
           js_round (js_mul (Fin y) (Fin (10 ^ k))) = Fin (of_int s)"
  proof (cases "s = 0")
    case True
    then show ?thesis by (intro exI [of _ 0]) (simp add: fl_0 shortest_0 floor_half)
  next
    case False
    then have "0 < s" using assms(4) by simp
    then show ?thesis using assms(5,3) by (rule roundtrip_core)
  qed
  then obtain y where y: "fl (of_int s / 10 ^ k) = Fin y"
    and sh: "shortest y = of_int s / 10 ^ k"
    and r: "js_round (js_mul (Fin y) (Fin (10 ^ k))) = Fin (of_int s)"
    by blast
  have "format_en_US 0 8 (Fin y) = a" by (simp add: format_en_US.simps sh a_def)
  then have 1: "toAmount UNITS (Num (Fin (of_int s))) (Some st) fiatPrecision = Inr a"
    by (simp only: toAmount_unit [of st UNITS "10 ^ k", OF assms(1,2) d0] y)
  have "toSatoshis UNITS (Str a) (Some st) = Inr (Fin (of_int s))"
    by (simp only: toSatoshis_unit [of st UNITS "10 ^ k", OF assms(1,2) 2] 3 y r)
  with 1 2 show ?thesis by (simp add: a_def)
qed

section \<open>Lemmas: the concrete round trips\<close>

lemma eight: "(8::nat) = Suc (Suc (Suc (Suc (Suc (Suc (Suc (Suc 0)))))))"
  by simp

lemma show_nat_examples:
  "show_nat 1 = ''1''" "show_nat (Suc 0) = ''1''" "show_nat 33554432 = ''33554432''"
  "show_nat 268435456 = ''268435456''" "show_nat 100000000 = ''100000000''"
  by (simp_all add: show_nat.simps digit_char_def)

lemma digits_fixed_examples:
  "digits_fixed 8 0 = ''00000000''" "digits_fixed 8 10000 = ''00010000''"
  "digits_fixed 8 19 = ''00000019''" "digits_fixed 8 170 = ''00000170''"
  "digits_fixed 8 1000000 = ''01000000''" "digits_fixed 8 50000000 = ''50000000''"
  by (simp_all only: eight digits_fixed.simps) (simp_all add: digit_char_def)

lemma strip_zeros_examples:
  "strip_zeros 0 ''00000000'' = []" "strip_zeros 0 ''00010000'' = ''0001''"
  "strip_zeros 0 ''00000019'' = ''00000019''" "strip_zeros 0 ''00000170'' = ''0000017''"
  "strip_zeros 0 ''01000000'' = ''01''" "strip_zeros 0 ''50000000'' = ''5''"
  by (simp_all add: strip_zeros_def)

lemma format_decimal_examples:
  "format_decimal 0 8 (1 / 10000) = ''0.0001''"
  "format_decimal 0 8 (10000000001 / 100) = ''100000000.01''"
  "format_decimal 0 8 (- 1) = ''-1''"
  "format_decimal 0 8 (3355443200000019 / 100000000) = ''33554432.00000019''"
  "format_decimal 0 8 (2684354560000017 / 10000000) = ''268435456.0000017''"
  "format_decimal 0 8 (1 / 1000000000) = ''0''"
  "format_decimal 0 8 (99999999 / 200000000) = ''0.5''"
  "format_decimal 0 8 (1 / 2) = ''0.5''"
  "format_decimal 0 8 0 = ''0''"
proof -
  have f: "\<lfloor>\<bar>1 / 10000 :: rat\<bar> * 10 ^ 8 + 1/2\<rfloor> = 10000"
    "\<lfloor>\<bar>10000000001 / 100 :: rat\<bar> * 10 ^ 8 + 1/2\<rfloor> = 10000000001000000"
    "\<lfloor>\<bar>- 1 :: rat\<bar> * 10 ^ 8 + 1/2\<rfloor> = 100000000"
    "\<lfloor>\<bar>3355443200000019 / 100000000 :: rat\<bar> * 10 ^ 8 + 1/2\<rfloor> = 3355443200000019"
    "\<lfloor>\<bar>2684354560000017 / 10000000 :: rat\<bar> * 10 ^ 8 + 1/2\<rfloor> = 26843545600000170"
    "\<lfloor>\<bar>1 / 1000000000 :: rat\<bar> * 10 ^ 8 + 1/2\<rfloor> = 0"
    "\<lfloor>\<bar>99999999 / 200000000 :: rat\<bar> * 10 ^ 8 + 1/2\<rfloor> = 50000000"
    "\<lfloor>\<bar>1 / 2 :: rat\<bar> * 10 ^ 8 + 1/2\<rfloor> = 50000000"
    "\<lfloor>\<bar>0 :: rat\<bar> * 10 ^ 8 + 1/2\<rfloor> = 0"
    by code_simp+
  show "format_decimal 0 8 (1 / 10000) = ''0.0001''"
    using f(1) by (simp add: format_decimal_def show_nat_0 digits_fixed_examples
        strip_zeros_examples)
  show "format_decimal 0 8 (10000000001 / 100) = ''100000000.01''"
    using f(2) by (simp add: format_decimal_def show_nat_examples digits_fixed_examples
        strip_zeros_examples)
  show "format_decimal 0 8 (- 1) = ''-1''"
    using f(3) by (simp add: format_decimal_def show_nat_examples digits_fixed_examples
        strip_zeros_examples)
  show "format_decimal 0 8 (3355443200000019 / 100000000) = ''33554432.00000019''"
    using f(4) by (simp add: format_decimal_def show_nat_examples digits_fixed_examples
        strip_zeros_examples)
  show "format_decimal 0 8 (2684354560000017 / 10000000) = ''268435456.0000017''"
    using f(5) by (simp add: format_decimal_def show_nat_examples digits_fixed_examples
        strip_zeros_examples)
  show "format_decimal 0 8 (1 / 1000000000) = ''0''"
    using f(6) by (simp add: format_decimal_def show_nat_0 digits_fixed_examples
        strip_zeros_examples)
  show "format_decimal 0 8 (99999999 / 200000000) = ''0.5''"
    using f(7) by (simp add: format_decimal_def show_nat_0 digits_fixed_examples
        strip_zeros_examples)
  show "format_decimal 0 8 (1 / 2) = ''0.5''"
    using f(8) by (simp add: format_decimal_def show_nat_0 digits_fixed_examples
        strip_zeros_examples)
  show "format_decimal 0 8 0 = ''0''"
    using f(9) by (simp add: format_decimal_def show_nat_0 digits_fixed_examples
        strip_zeros_examples)
qed

lemma fl_btc_amount: "fl (3355443200000019 / 100000000) = Fin (2251799813685261 / 67108864)"
proof (rule fl_eval)
  show "fl_exp (3355443200000019 / 100000000) = - 27" by code_simp
  show "(3355443200000019 / 100000000 :: rat) / 2 powi (- 27) = 1759218604441609961472 / 390625"
    by (simp add: power_int_minus)
  show "round_even (1759218604441609961472 / 390625) = 4503599627370522" by code_simp
  show "of_int 4503599627370522 * 2 powi (- 27) = (2251799813685261 / 67108864 :: rat)"
    by (simp add: power_int_minus)
qed simp_all

lemma fl_btc_product: "fl (879609302220805078125 / 262144) = Fin (6710886400000039 / 2)"
proof (rule fl_eval)
  show "fl_exp (879609302220805078125 / 262144) = - 1" by code_simp
  show "(879609302220805078125 / 262144 :: rat) / 2 powi (- 1) = 879609302220805078125 / 131072"
    by (simp add: power_int_minus)
  show "round_even (879609302220805078125 / 131072) = 6710886400000039" by code_simp
  show "of_int 6710886400000039 * 2 powi (- 1) = (6710886400000039 / 2 :: rat)"
    by (simp add: power_int_minus)
qed simp_all

lemma fl_milli_amount: "fl (2684354560000017 / 10000000) = Fin (4503599627370525 / 16777216)"
proof (rule fl_eval)
  show "fl_exp (2684354560000017 / 10000000) = - 24" by code_simp
  show "(2684354560000017 / 10000000 :: rat) / 2 powi (- 24) = 351843720888322228224 / 78125"
    by (simp add: power_int_minus)
  show "round_even (351843720888322228224 / 78125) = 4503599627370525" by code_simp
  show "of_int 4503599627370525 * 2 powi (- 24) = (4503599627370525 / 16777216 :: rat)"
    by (simp add: power_int_minus)
qed simp_all

lemma fl_milli_product: "fl (351843720888322265625 / 131072) = Fin (5368709120000035 / 2)"
proof (rule fl_eval)
  show "fl_exp (351843720888322265625 / 131072) = - 1" by code_simp
  show "(351843720888322265625 / 131072 :: rat) / 2 powi (- 1) = 351843720888322265625 / 65536"
    by (simp add: power_int_minus)
  show "round_even (351843720888322265625 / 65536) = 5368709120000035" by code_simp
  show "of_int 5368709120000035 * 2 powi (- 1) = (5368709120000035 / 2 :: rat)"
    by (simp add: power_int_minus)
qed simp_all

lemma fl_billionth: "fl (1 / 1000000000) = Fin (4835703278458517 / 4835703278458516698824704)"
proof (rule fl_eval)
  show "fl_exp (1 / 1000000000) = - 82" by code_simp
  show "(1 / 1000000000 :: rat) / 2 powi (- 82) = 9444732965739290427392 / 1953125"
    by (simp add: power_int_minus)
  show "round_even (9444732965739290427392 / 1953125) = 4835703278458517" by code_simp
  show "of_int 4835703278458517 * 2 powi (- 82) = (4835703278458517 / 4835703278458516698824704 :: rat)"
    by (simp add: power_int_minus)
qed simp_all

lemma fl_odd_amount: "fl (49999999 / 99999999) = Fin (9007199164668999 / 18014398509481984)"
proof (rule fl_eval)
  show "fl_exp (49999999 / 99999999) = - 54" by code_simp
  show "(49999999 / 99999999 :: rat) / 2 powi (- 54) = 900719907459700690518016 / 99999999"
    by (simp add: power_int_minus)
  show "round_even (900719907459700690518016 / 99999999) = 9007199164668999" by code_simp
  show "of_int 9007199164668999 * 2 powi (- 54) = (9007199164668999 / 18014398509481984 :: rat)"
    by (simp add: power_int_minus)
qed simp_all

lemma fl_odd_decimal: "fl (99999999 / 200000000) = Fin (9007199164668999 / 18014398509481984)"
proof (rule fl_eval)
  show "fl_exp (99999999 / 200000000) = - 54" by code_simp
  show "(99999999 / 200000000 :: rat) / 2 powi (- 54) = 3518437173698827911168 / 390625"
    by (simp add: power_int_minus)
  show "round_even (3518437173698827911168 / 390625) = 9007199164668999" by code_simp
  show "of_int 9007199164668999 * 2 powi (- 54) = (9007199164668999 / 18014398509481984 :: rat)"
    by (simp add: power_int_minus)
qed simp_all

lemma fl_odd_product: "fl (99999999 / 2) = Fin (99999999 / 2)"
proof (rule fl_eval)
  show "fl_exp (99999999 / 2) = - 27" by code_simp
  show "(99999999 / 2 :: rat) / 2 powi (- 27) = 6710886332891136"
    by (simp add: power_int_minus)
  show "round_even (6710886332891136) = 6710886332891136" by code_simp
  show "of_int 6710886332891136 * 2 powi (- 27) = (99999999 / 2 :: rat)"
    by (simp add: power_int_minus)
qed simp_all

lemma fl_half: "fl (1 / 2) = Fin (1 / 2)"
proof (rule fl_eval)
  show "fl_exp (1 / 2) = - 53" by code_simp
  show "(1 / 2 :: rat) / 2 powi (- 53) = 4503599627370496"
    by (simp add: power_int_minus)
  show "round_even (4503599627370496) = 4503599627370496" by code_simp
  show "of_int 4503599627370496 * 2 powi (- 53) = (1 / 2 :: rat)"
    by (simp add: power_int_minus)
qed simp_all

lemma shortest_examples:
  "shortest (- 1) = - 1"
  "shortest (2251799813685261 / 67108864) = 3355443200000019 / 100000000"
  "shortest (4503599627370525 / 16777216) = 2684354560000017 / 10000000"
  "shortest (4835703278458517 / 4835703278458516698824704) = 1 / 1000000000"
  "shortest (9007199164668999 / 18014398509481984) = 99999999 / 200000000"
proof -
  show "shortest (- 1) = - 1"
    using shortest_decimal [of 1 0 1] by (simp add: shortest_minus fl_1)
  show "shortest (2251799813685261 / 67108864) = 3355443200000019 / 100000000"
    using shortest_decimal [of 3355443200000019 8 "2251799813685261 / 67108864"]
    by (simp add: fl_btc_amount)
  show "shortest (4503599627370525 / 16777216) = 2684354560000017 / 10000000"
    using shortest_decimal [of 2684354560000017 7 "4503599627370525 / 16777216"]
    by (simp add: fl_milli_amount)
  show "shortest (4835703278458517 / 4835703278458516698824704) = 1 / 1000000000"
    using shortest_decimal [of 1 9 "4835703278458517 / 4835703278458516698824704"]
    by (simp add: fl_billionth)
  show "shortest (9007199164668999 / 18014398509481984) = 99999999 / 200000000"
    using shortest_decimal [of 499999995 9 "9007199164668999 / 18014398509481984"]
    by (simp add: fl_odd_decimal)
qed

lemma str_to_number_examples:
  "str_to_number ''33554432.00000019'' = Fin (2251799813685261 / 67108864)"
  "str_to_number ''268435456.0000017'' = Fin (4503599627370525 / 16777216)"
  "str_to_number ''0'' = Fin 0"
  "str_to_number ''0.5'' = Fin (1 / 2)"
proof -
  show "str_to_number ''33554432.00000019'' = Fin (2251799813685261 / 67108864)"
    using format_decimal_exact(2) [of 3355443200000019 8]
    by (simp add: format_decimal_examples fl_btc_amount)
  show "str_to_number ''268435456.0000017'' = Fin (4503599627370525 / 16777216)"
    using format_decimal_exact(2) [of 2684354560000017 7]
    by (simp add: format_decimal_examples fl_milli_amount)
  show "str_to_number ''0'' = Fin 0"
    using format_decimal_exact(2) [of 0 0] by (simp add: format_decimal_examples fl_0)
  show "str_to_number ''0.5'' = Fin (1 / 2)"
    using format_decimal_exact(2) [of 5 1] by (simp add: format_decimal_examples fl_half)
qed

lemma fl_1005: "fl (201 / 200) = Fin (1131529406376837 / 1125899906842624)"
proof (rule fl_eval)
  show "fl_exp (201 / 200) = - 52" by code_simp
  show "(201 / 200 :: rat) / 2 powi (- 52) = 113152940637683712 / 25"
    by (simp add: power_int_minus)
  show "round_even (113152940637683712 / 25) = 4526117625507348" by code_simp
  show "of_int 4526117625507348 * 2 powi (- 52) = (1131529406376837 / 1125899906842624 :: rat)"
    by (simp add: power_int_minus)
qed simp_all

text \<open>
  The formatter rounds the shortest decimal, not the binary value: the number \<open>1.005\<close> is
  below the decimal 1.005 and prints, with two fraction digits, as \<open>1.01\<close>.
\<close>

lemma format_en_US_rounds_the_decimal:
  "format_en_US 2 2 (Fin (1131529406376837 / 1125899906842624)) = ''1.01''" and "(1131529406376837 / 1125899906842624 :: rat) < 201 / 200"
proof -
  have sh: "shortest (1131529406376837 / 1125899906842624) = 201 / 200"
    using shortest_decimal [of 1005 3 "1131529406376837 / 1125899906842624"] by (simp add: fl_1005)
  have f: "\<lfloor>\<bar>201 / 200 :: rat\<bar> * 10 ^ 2 + 1/2\<rfloor> = 101" by code_simp
  have d: "digits_fixed 2 (Suc 0) = ''01''" by (rule digits_fixed_2)
  have z: "strip_zeros 2 ''01'' = ''01''" by (simp add: strip_zeros_def)
  show "format_en_US 2 2 (Fin (1131529406376837 / 1125899906842624)) = ''1.01''"
    using f by (simp add: format_en_US.simps sh format_decimal_def show_nat_examples d z)
  show "(1131529406376837 / 1125899906842624 :: rat) < 201 / 200" by simp
qed

section \<open>The round trip at concrete amounts\<close>

theorem toAmount_toSatoshis_round_trip_witness:
  "displayFiat btc_settings = Bool False \<and> UNITS_spec (unit btc_settings) = Some (10 ^ 8) \<and>
   (8::nat) \<le> 8 \<and> (0::int) \<le> 10000 \<and> (10000::int) < 2 ^ 51 \<and>
   toAmount UNITS_spec (Num (Fin 10000)) (Some btc_settings) 8 = Inr ''0.0001'' \<and>
   toSatoshis UNITS_spec (Str ''0.0001'') (Some btc_settings) = Inr (Fin 10000) \<and>
   toAmount (one_unit 100) (Num (Fin 10000000001)) (Some unit_settings) 8
     = Inr ''100000000.01'' \<and>
   toSatoshis (one_unit 100) (Str ''100000000.01'') (Some unit_settings)
     = Inr (Fin 10000000001)"
  using toAmount_toSatoshis_round_trip [of btc_settings UNITS_spec 8 10000 8]
    toAmount_toSatoshis_round_trip [of unit_settings "one_unit 100" 2 10000000001 8]
  by (simp add: btc_settings_def UNITS_spec_def unit_settings_def one_unit_def
      format_decimal_examples)

text \<open>
  Claim C1 as stated fails in four ways.

  \<^item> A negative amount: for \<open>s = -100000000\<close> (minus one bitcoin) \<open>toAmount\<close> prints \<open>-1\<close>,
    which the pattern of \<open>toSatoshis\<close> refuses.
  \<^item> A large amount: for \<open>s = 3355443200000019\<close> and the denominator \<open>10\<^sup>8\<close>, and for
    \<open>s = 2684354560000017\<close> and the denominator \<open>10\<^sup>7\<close>, both between \<open>2\<^sup>5\<^sup>1\<close> and \<open>2\<^sup>5\<^sup>2\<close>,
    \<open>toAmount\<close> prints the exact quotient and \<open>toSatoshis\<close> returns \<open>s + 1\<close>: the binary64
    product is \<open>s + 1/2\<close> and \<open>Math.round\<close> rounds it up.
  \<^item> A denominator above \<open>10\<^sup>8\<close>: with \<open>10\<^sup>9\<close> satoshis to the unit, one satoshi prints as
    \<open>0\<close>.
  \<^item> A denominator that is no power of ten: with 99999999 satoshis to the unit,
    \<open>s = 49999999\<close> prints as \<open>0.5\<close>, since the shortest decimal of the quotient is
    0.499999995, and \<open>toSatoshis\<close> returns 50000000.
\<close>

theorem toAmount_toSatoshis_counterexample:
  "toAmount UNITS_spec (Num (Fin (- 100000000))) (Some btc_settings) 8 = Inr ''-1'' \<and>
   toSatoshis UNITS_spec (Str ''-1'') (Some btc_settings) = Inl InvalidInput \<and>
   toAmount UNITS_spec (Num (Fin 3355443200000019)) (Some btc_settings) 8
     = Inr ''33554432.00000019'' \<and>
   toSatoshis UNITS_spec (Str ''33554432.00000019'') (Some btc_settings)
     = Inr (Fin 3355443200000020) \<and>
   toAmount (one_unit (10 ^ 7)) (Num (Fin 2684354560000017)) (Some unit_settings) 8
     = Inr ''268435456.0000017'' \<and>
   toSatoshis (one_unit (10 ^ 7)) (Str ''268435456.0000017'') (Some unit_settings)
     = Inr (Fin 2684354560000018) \<and>
   toAmount (one_unit (10 ^ 9)) (Num (Fin 1)) (Some unit_settings) 8 = Inr ''0'' \<and>
   toSatoshis (one_unit (10 ^ 9)) (Str ''0'') (Some unit_settings) = Inr (Fin 0) \<and>
   toAmount (one_unit 99999999) (Num (Fin 49999999)) (Some unit_settings) 8 = Inr ''0.5'' \<and>
   toSatoshis (one_unit 99999999) (Str ''0.5'') (Some unit_settings) = Inr (Fin 50000000)"
proof -
  have m1: "fl (- 1) = Fin (- 1)" using fl_int [of "- 1"] by simp
  have 1: "toAmount UNITS_spec (Num (Fin (- 100000000))) (Some btc_settings) 8 = Inr ''-1''"
    by (simp add: toAmount_def btc_settings_def UNITS_spec_def m1 format_en_US.simps
        shortest_examples format_decimal_examples)
  have 2: "toSatoshis UNITS_spec (Str ''-1'') (Some btc_settings) = Inl InvalidInput"
    by (simp add: toSatoshis_def matches_decimal_def is_digit_def)
  have 3: "toAmount UNITS_spec (Num (Fin 3355443200000019)) (Some btc_settings) 8
     = Inr ''33554432.00000019''"
    by (simp add: toAmount_def btc_settings_def UNITS_spec_def fl_btc_amount
        format_en_US.simps shortest_examples format_decimal_examples)
  have 4: "toSatoshis UNITS_spec (Str ''33554432.00000019'') (Some btc_settings)
     = Inr (Fin 3355443200000020)"
    by (simp add: toSatoshis_def matches_decimal_def is_digit_def btc_settings_def
        UNITS_spec_def str_to_number_examples fl_btc_product)
  have 5: "toAmount (one_unit (10 ^ 7)) (Num (Fin 2684354560000017)) (Some unit_settings) 8
     = Inr ''268435456.0000017''"
    by (simp add: toAmount_def unit_settings_def one_unit_def fl_milli_amount
        format_en_US.simps shortest_examples format_decimal_examples)
  have 6: "toSatoshis (one_unit (10 ^ 7)) (Str ''268435456.0000017'') (Some unit_settings)
     = Inr (Fin 2684354560000018)"
    by (simp add: toSatoshis_def matches_decimal_def is_digit_def unit_settings_def
        one_unit_def str_to_number_examples fl_milli_product)
  have 7: "toAmount (one_unit (10 ^ 9)) (Num (Fin 1)) (Some unit_settings) 8 = Inr ''0''"
    by (simp add: toAmount_def unit_settings_def one_unit_def fl_billionth
        format_en_US.simps shortest_examples format_decimal_examples)
  have 8: "toSatoshis (one_unit (10 ^ 9)) (Str ''0'') (Some unit_settings) = Inr (Fin 0)"
    by (simp add: toSatoshis_def matches_decimal_def is_digit_def unit_settings_def
        one_unit_def str_to_number_examples fl_0 floor_half)
  have 9: "toAmount (one_unit 99999999) (Num (Fin 49999999)) (Some unit_settings) 8 = Inr ''0.5''"
    by (simp add: toAmount_def unit_settings_def one_unit_def fl_odd_amount
        format_en_US.simps shortest_examples format_decimal_examples)
  have 10: "toSatoshis (one_unit 99999999) (Str ''0.5'') (Some unit_settings)
     = Inr (Fin 50000000)"
    by (simp add: toSatoshis_def matches_decimal_def is_digit_def unit_settings_def
        one_unit_def str_to_number_examples fl_odd_product)
  from 1 2 3 4 5 6 7 8 9 10 show ?thesis by simp
qed

end
